theory Spec2Isabelle
  imports Main "HOL-Library.Sublist"
begin

section \<open>Python strings and bytes\<close>

text \<open>
  The script \<^verbatim>\<open>overleaf_pull.py\<close> works on Python \<^verbatim>\<open>str\<close> and \<^verbatim>\<open>bytes\<close> values.
  Both are modelled as lists of 8-bit characters: a \<^verbatim>\<open>bytes\<close> value is its bytes, a
  \<^verbatim>\<open>str\<close> value is its code points, restricted to the Latin-1 range (the range an HTTP
  header value can carry).
\<close>

type_synonym bytes = string

text \<open>\<^verbatim>\<open>str.isspace\<close> on one character, for code points below 256.\<close>

definition py_isspace :: "char \<Rightarrow> bool" where
  "py_isspace c = (of_char c \<in> set [9, 10, 11, 12, 13, 28, 29, 30, 31, 32, 133, 160 :: nat])"

text \<open>
  \<^verbatim>\<open>str.lower\<close> on one character, for code points below 256: the upper-case letters are
  \<^verbatim>\<open>A-Z\<close> and the Latin-1 block 192..222 without the multiplication sign 215; the lower-case
  letter is 32 above, that is bit 5 set.
\<close>

definition py_isupper :: "char \<Rightarrow> bool" where
  "py_isupper c =
     (let n = (of_char c :: nat)
      in (65 \<le> n \<and> n \<le> 90) \<or> (192 \<le> n \<and> n \<le> 222 \<and> n \<noteq> 215))"

definition py_lower_char :: "char \<Rightarrow> char" where
  "py_lower_char c =
     (if py_isupper c
      then (case c of Char b0 b1 b2 b3 b4 b5 b6 b7 \<Rightarrow> Char b0 b1 b2 b3 b4 True b6 b7)
      else c)"

text \<open>\<^verbatim>\<open>s.lower()\<close>\<close>

definition lower :: "string \<Rightarrow> string" where
  "lower s = map py_lower_char s"

text \<open>\<^verbatim>\<open>s.strip()\<close>: leading and trailing whitespace removed.\<close>

definition strip :: "string \<Rightarrow> string" where
  "strip s = rev (dropWhile py_isspace (rev (dropWhile py_isspace s)))"

text \<open>\<^verbatim>\<open>s.rstrip(chars)\<close>: the longest suffix made of characters of \<^verbatim>\<open>chars\<close> removed.\<close>

definition rstrip :: "string \<Rightarrow> string \<Rightarrow> string" where
  "rstrip s chars = rev (dropWhile (\<lambda>c. c \<in> set chars) (rev s))"

text \<open>\<^verbatim>\<open>s.startswith(p)\<close>\<close>

definition startswith :: "string \<Rightarrow> string \<Rightarrow> bool" where
  "startswith s p = prefix p s"

text \<open>
  \<^verbatim>\<open>s.split(sep)\<close> for a one-character separator: the pieces between the separators, empty
  pieces included; the result is never empty (\<^verbatim>\<open>"".split("/") == [""]\<close>).
\<close>

fun split :: "string \<Rightarrow> char \<Rightarrow> string list" where
  "split [] sep = [[]]"
| "split (c # cs) sep =
     (if c = sep then [] # split cs sep
      else (case split cs sep of
              [] \<Rightarrow> [[c]]
            | w # ws \<Rightarrow> (c # w) # ws))"

section \<open>Session builder\<close>

text \<open>
  \<^verbatim>\<open>
  def _normalize_base_url(url: str) -> str:
      return url.rstrip("/")
  \<close>
\<close>

definition normalize_base_url :: "string \<Rightarrow> string" where
  "normalize_base_url url = rstrip url ''/''"

text \<open>
  \<^verbatim>\<open>
  def _cookie_header(cookie: str) -> str:
      if cookie.strip().lower().startswith("overleaf.sid="):
          return cookie.strip()
      return "overleaf.sid=" + cookie.strip()
  \<close>
\<close>

definition cookie_header :: "string \<Rightarrow> string" where
  "cookie_header cookie =
     (if startswith (lower (strip cookie)) ''overleaf.sid='' then strip cookie
      else ''overleaf.sid='' @ strip cookie)"

text \<open>
  The reading of "\<open>s\<close> case-insensitively starts with \<open>p\<close>" used to state the
  cookie property: the first \<open>length p\<close> characters of \<open>s\<close> are there and equal \<open>p\<close> up
  to letter case.
\<close>

definition ci_startswith :: "string \<Rightarrow> string \<Rightarrow> bool" where
  "ci_startswith s p = (length p \<le> length s \<and> lower (take (length p) s) = lower p)"

section \<open>Common-root detection\<close>

text \<open>
  \<^verbatim>\<open>
  def _single_root_dir(names: list) -> Optional[str]:
      top_dirs = set()
      for name in names:
          parts = [p for p in name.split("/") if p]
          if not parts:
              continue
          top_dirs.add(parts[0])
      if len(top_dirs) != 1:
          return None
      single = next(iter(top_dirs))
      if not any(n.startswith(single + "/") for n in names):
          return None
      return single
  \<close>
  The Python set \<^verbatim>\<open>top_dirs\<close> is a list without duplicates; \<^verbatim>\<open>next(iter(top_dirs))\<close> is
  read only when the set has one element, so the order of iteration plays no role.
\<close>

definition path_parts :: "string \<Rightarrow> string list" where
  "path_parts name = filter (\<lambda>p. p \<noteq> []) (split name CHR ''/'')"

definition set_add :: "'a list \<Rightarrow> 'a \<Rightarrow> 'a list" where
  "set_add s x = (if x \<in> set s then s else s @ [x])"

fun top_dirs_loop :: "string list \<Rightarrow> string list \<Rightarrow> string list" where
  "top_dirs_loop top_dirs [] = top_dirs"
| "top_dirs_loop top_dirs (name # names) =
     (let parts = path_parts name
      in if parts = [] then top_dirs_loop top_dirs names
         else top_dirs_loop (set_add top_dirs (hd parts)) names)"

definition single_root_dir :: "string list \<Rightarrow> string option" where
  "single_root_dir names =
     (let top_dirs = top_dirs_loop [] names
      in if length top_dirs \<noteq> 1 then None
         else (let single = hd top_dirs
               in if \<not> list_ex (\<lambda>n. startswith n (single @ ''/'')) names then None
                  else Some single))"

section \<open>Errors\<close>

text \<open>
  Every exception the script can end with is a value. \<open>HTTPError\<close> is the exception of
  \<^verbatim>\<open>Response.raise_for_status\<close>; it carries the status code and the URL of the response.
  \<open>RuntimeError\<close> is raised by \<^verbatim>\<open>download_zip\<close> with its message. \<open>RequestException\<close> is a
  failed transfer, \<open>BadZipFile\<close> a byte string that is no archive. The last four are the
  \<^verbatim>\<open>OSError\<close> subclasses of the file system calls.
\<close>

datatype error =
    HTTPError nat string
  | RequestException
  | RuntimeError string
  | BadZipFile
  | KeyError string
  | FileNotFoundError
  | NotADirectoryError
  | FileExistsError
  | IsADirectoryError

section \<open>File system\<close>

text \<open>
  A file system maps a canonical absolute path (its components from the root, none of
  them empty, \<^verbatim>\<open>.\<close> or \<^verbatim>\<open>..\<close>) to a directory or to a regular file with its bytes. The
  root is the empty path and is always a directory. There are no symbolic links: the
  script creates none.
\<close>

type_synonym path = "string list"

datatype node = Dir | File bytes

type_synonym filesystem = "path \<rightharpoonup> node"

definition node_at :: "filesystem \<Rightarrow> path \<Rightarrow> node option" where
  "node_at fs p = (if p = [] then Some Dir else fs p)"

text \<open>One component of a path name, followed from the directory \<open>cur\<close>.\<close>

definition step :: "path \<Rightarrow> string \<Rightarrow> path" where
  "step cur c =
     (if c = ''..'' then butlast cur
      else if c = ''.'' \<or> c = [] then cur
      else cur @ [c])"

text \<open>
  Path resolution as the kernel does it: every component is followed from a directory
  that exists; a missing one is \<^verbatim>\<open>ENOENT\<close>, a regular file in the way is \<^verbatim>\<open>ENOTDIR\<close>. The
  result is the canonical path reached; whether anything exists there is for the caller
  to look up.
\<close>

fun walk :: "filesystem \<Rightarrow> path \<Rightarrow> string list \<Rightarrow> error + path" where
  "walk fs cur [] = Inr cur"
| "walk fs cur (c # cs) =
     (case node_at fs cur of
        None \<Rightarrow> Inl FileNotFoundError
      | Some (File b) \<Rightarrow> Inl NotADirectoryError
      | Some Dir \<Rightarrow> walk fs (step cur c) cs)"

text \<open>\<^verbatim>\<open>os.path.isdir(p)\<close>, \<^verbatim>\<open>Path.is_dir()\<close> and \<^verbatim>\<open>os.path.exists(p)\<close>\<close>

definition is_dir :: "filesystem \<Rightarrow> path \<Rightarrow> bool" where
  "is_dir fs p = (case walk fs [] p of Inl e \<Rightarrow> False | Inr d \<Rightarrow> node_at fs d = Some Dir)"

definition exists :: "filesystem \<Rightarrow> path \<Rightarrow> bool" where
  "exists fs p = (case walk fs [] p of Inl e \<Rightarrow> False | Inr d \<Rightarrow> node_at fs d \<noteq> None)"

text \<open>
  The directory a new name goes into: the path without its last component, resolved, and
  checked to be a directory.
\<close>

definition parent_dir :: "filesystem \<Rightarrow> path \<Rightarrow> error + path" where
  "parent_dir fs p =
     (case walk fs [] (butlast p) of
        Inl e \<Rightarrow> Inl e
      | Inr d \<Rightarrow>
          (case node_at fs d of
             None \<Rightarrow> Inl FileNotFoundError
           | Some (File b) \<Rightarrow> Inl NotADirectoryError
           | Some Dir \<Rightarrow> Inr d))"

text \<open>\<^verbatim>\<open>os.mkdir(p)\<close>: one new directory; anything that exists at \<open>p\<close> is \<^verbatim>\<open>EEXIST\<close>.\<close>

definition os_mkdir :: "filesystem \<Rightarrow> path \<Rightarrow> error + filesystem" where
  "os_mkdir fs p =
     (if p = [] then Inl FileExistsError
      else (case parent_dir fs p of
              Inl e \<Rightarrow> Inl e
            | Inr d \<Rightarrow>
                (let t = step d (last p)
                 in if node_at fs t \<noteq> None then Inl FileExistsError
                    else Inr (fs(t \<mapsto> Dir)))))"

text \<open>
  \<^verbatim>\<open>Path.mkdir(parents, exist_ok)\<close> of \<^verbatim>\<open>pathlib\<close>:
  \<^verbatim>\<open>
  try:
      os.mkdir(self, mode)
  except FileNotFoundError:
      if not parents or self.parent == self:
          raise
      self.parent.mkdir(parents=True, exist_ok=True)
      self.mkdir(mode, parents=False, exist_ok=exist_ok)
  except OSError:
      if not exist_ok or not self.is_dir():
          raise
  \<close>
  \<^verbatim>\<open>Path.parent\<close> drops the last component as written; the parent of the root is the root.
\<close>

function path_mkdir :: "filesystem \<Rightarrow> path \<Rightarrow> bool \<Rightarrow> bool \<Rightarrow> error + filesystem" where
  "path_mkdir fs p parents exist_ok =
     (case os_mkdir fs p of
        Inr fs' \<Rightarrow> Inr fs'
      | Inl e \<Rightarrow>
          (if e = FileNotFoundError then
             (if \<not> parents \<or> p = [] then Inl e
              else (case path_mkdir fs (butlast p) True True of
                      Inl e' \<Rightarrow> Inl e'
                    | Inr fs1 \<Rightarrow> path_mkdir fs1 p False exist_ok))
           else if \<not> exist_ok \<or> \<not> is_dir fs p then Inl e
           else Inr fs))"
  by pat_completeness auto
termination
  by (relation "measure (\<lambda>(fs, p, parents, exist_ok). 2 * length p + (if parents then 1 else 0))")
     auto

declare path_mkdir.simps [simp del]

text \<open>
  \<^verbatim>\<open>Path.write_bytes(data)\<close>: \<^verbatim>\<open>open(p, "wb")\<close> creates the file or truncates the one that is
  there, in a directory that exists; a directory at \<open>p\<close> is \<^verbatim>\<open>EISDIR\<close>.
\<close>

definition write_bytes :: "filesystem \<Rightarrow> path \<Rightarrow> bytes \<Rightarrow> error + filesystem" where
  "write_bytes fs p bs =
     (if p = [] then Inl IsADirectoryError
      else (case parent_dir fs p of
              Inl e \<Rightarrow> Inl e
            | Inr d \<Rightarrow>
                (let t = step d (last p)
                 in if node_at fs t = Some Dir then Inl IsADirectoryError
                    else Inr (fs(t \<mapsto> File bs)))))"

text \<open>
  \<^verbatim>\<open>os.makedirs(name)\<close> with \<^verbatim>\<open>exist_ok=False\<close>:
  \<^verbatim>\<open>
  head, tail = path.split(name)
  if head and tail and not path.exists(head):
      try:
          makedirs(head, exist_ok=exist_ok)
      except FileExistsError:
          pass
      if tail == curdir:
          return
  mkdir(name, mode)
  \<close>
  An exception is caught here after directories may have been made, so the result is the
  exception, if any, together with the file system as it then is.
\<close>

definition try_mkdir :: "filesystem \<Rightarrow> path \<Rightarrow> error option \<times> filesystem" where
  "try_mkdir fs p = (case os_mkdir fs p of Inl e \<Rightarrow> (Some e, fs) | Inr fs' \<Rightarrow> (None, fs'))"

function makedirs :: "filesystem \<Rightarrow> path \<Rightarrow> error option \<times> filesystem" where
  "makedirs fs p =
     (if p \<noteq> [] \<and> \<not> exists fs (butlast p) then
        (case makedirs fs (butlast p) of
           (Some e, fs1) \<Rightarrow>
             (if e = FileExistsError then
                (if last p = ''.'' then (None, fs1) else try_mkdir fs1 p)
              else (Some e, fs1))
         | (None, fs1) \<Rightarrow> (if last p = ''.'' then (None, fs1) else try_mkdir fs1 p))
      else try_mkdir fs p)"
  by pat_completeness auto
termination
  by (relation "measure (\<lambda>(fs, p). length p)") auto

declare makedirs.simps [simp del]

text \<open>
  \<^verbatim>\<open>output_dir / rel\<close> of \<^verbatim>\<open>pathlib\<close>, for an absolute \<open>output_dir\<close>: the components of \<open>rel\<close>
  without the empty ones and \<^verbatim>\<open>.\<close> are appended; \<^verbatim>\<open>..\<close> stays as written; an absolute
  \<open>rel\<close> replaces \<open>output_dir\<close>.
\<close>

definition path_join :: "path \<Rightarrow> string \<Rightarrow> path" where
  "path_join output_dir rel =
     (let parts = filter (\<lambda>c. c \<noteq> [] \<and> c \<noteq> ''.'') (split rel CHR ''/'')
      in if startswith rel ''/'' then parts else output_dir @ parts)"

text \<open>\<^verbatim>\<open>str(path)\<close> of an absolute path.\<close>

definition path_str :: "path \<Rightarrow> string" where
  "path_str p = (if p = [] then ''/'' else concat (map (\<lambda>c. ''/'' @ c) p))"

section \<open>Archives\<close>

text \<open>
  An open \<^verbatim>\<open>zipfile.ZipFile\<close> is the list of its members in archive order
  (\<^verbatim>\<open>zf.infolist()\<close>), each with its name and its decompressed bytes. \<^verbatim>\<open>zf.namelist()\<close> is
  the list of the names. \<^verbatim>\<open>ZipInfo.is_dir()\<close> is true when the name ends in a slash.
  \<^verbatim>\<open>zf.read(name)\<close> looks the name up in the dictionary \<^verbatim>\<open>NameToInfo\<close>, where a later member
  of the same name has replaced an earlier one.
\<close>

record zipinfo =
  filename :: string
  file_data :: bytes

type_synonym zipfile = "zipinfo list"

definition namelist :: "zipfile \<Rightarrow> string list" where
  "namelist zf = map filename zf"

definition info_is_dir :: "zipinfo \<Rightarrow> bool" where
  "info_is_dir info = suffix ''/'' (filename info)"

definition zf_read :: "zipfile \<Rightarrow> string \<Rightarrow> error + bytes" where
  "zf_read zf name =
     (case filter (\<lambda>i. filename i = name) zf of
        [] \<Rightarrow> Inl (KeyError name)
      | i # is \<Rightarrow> Inr (file_data (last (i # is))))"

text \<open>
  \<^verbatim>\<open>ZipFile._extract_member\<close> of CPython 3.11, which \<^verbatim>\<open>extractall\<close> calls on every member in
  archive order:
  \<^verbatim>\<open>
  arcname = os.path.sep.join(x for x in arcname.split(os.path.sep)
                             if x not in ('', '.', '..'))
  targetpath = os.path.normpath(os.path.join(targetpath, arcname))
  upperdirs = os.path.dirname(targetpath)
  if upperdirs and not os.path.exists(upperdirs):
      os.makedirs(upperdirs)
  if member.is_dir():
      if not os.path.isdir(targetpath):
          os.mkdir(targetpath)
      return targetpath
  with self.open(member) as source, open(targetpath, "wb") as target:
      shutil.copyfileobj(source, target)
  \<close>
\<close>

definition extract_member :: "path \<Rightarrow> zipinfo \<Rightarrow> filesystem \<Rightarrow> error + filesystem" where
  "extract_member output_dir member fs =
     (let arcname = filter (\<lambda>x. x \<noteq> [] \<and> x \<noteq> ''.'' \<and> x \<noteq> ''..'')
                      (split (filename member) CHR ''/'');
          targetpath = output_dir @ arcname;
          upperdirs = butlast targetpath
      in (case (if \<not> exists fs upperdirs then makedirs fs upperdirs else (None, fs)) of
            (Some e, fs1) \<Rightarrow> Inl e
          | (None, fs1) \<Rightarrow>
              (if info_is_dir member then
                 (if \<not> is_dir fs1 targetpath then os_mkdir fs1 targetpath else Inr fs1)
               else write_bytes fs1 targetpath (file_data member))))"

fun extractall :: "path \<Rightarrow> zipinfo list \<Rightarrow> filesystem \<Rightarrow> error + filesystem" where
  "extractall output_dir [] fs = Inr fs"
| "extractall output_dir (member # members) fs =
     (case extract_member output_dir member fs of
        Inl e \<Rightarrow> Inl e
      | Inr fs1 \<Rightarrow> extractall output_dir members fs1)"

section \<open>The environment of a run\<close>

text \<open>
  What the script takes from outside: the server behind \<^verbatim>\<open>session.get\<close> (the response
  to a URL and request headers, or no response at all), the two text functions used for
  the error message of \<^verbatim>\<open>download_zip\<close> (\<^verbatim>\<open>bytes.decode("utf-8", errors="replace")\<close> and
  \<^verbatim>\<open>repr\<close>), the parser of \<^verbatim>\<open>zipfile.ZipFile\<close> (\<open>None\<close> for bytes that are no archive),
  \<^verbatim>\<open>Path.resolve\<close>, the headers a new \<^verbatim>\<open>requests.Session\<close> starts with, and
  \<^verbatim>\<open>extract_cookies_to_jar\<close> of \<^verbatim>\<open>requests\<close>: the cookie jar of the session after a response,
  from the jar before it and the cookies the response sets.
\<close>

record response =
  status_code :: nat
  resp_url :: string
  resp_headers :: "string \<rightharpoonup> string"
  content :: bytes
  resp_text :: string

record env =
  http_get :: "string \<Rightarrow> (string \<rightharpoonup> string) \<Rightarrow> response option"
  decode_replace :: "bytes \<Rightarrow> string"
  repr :: "string \<Rightarrow> string"
  ZipFile :: "bytes \<Rightarrow> zipfile option"
  resolve :: "string \<Rightarrow> path"
  default_headers :: "string \<rightharpoonup> string"
  extract_cookies_to_jar :: "(string \<rightharpoonup> string) \<Rightarrow> response \<Rightarrow> (string \<rightharpoonup> string)"

text \<open>
  The state of a run: the header map of the session (\<^verbatim>\<open>session.headers\<close>), its cookie jar
  (\<^verbatim>\<open>session.cookies\<close>, empty in a new session), the file system, the lines printed, and the
  log of the effects in the order they happen (a header of the session set, a request
  sent with the headers it carried).
\<close>

datatype event =
    HeaderSet string string
  | Request string "string \<rightharpoonup> string"

record world =
  headers :: "string \<rightharpoonup> string"
  events :: "event list"
  files :: filesystem
  stdout :: "string list"
  cookies :: "string \<rightharpoonup> string"

text \<open>\<^verbatim>\<open>session.headers[k] = v\<close>\<close>

definition set_header :: "world \<Rightarrow> string \<Rightarrow> string \<Rightarrow> world" where
  "set_header w k v = w\<lparr>headers := (headers w)(k \<mapsto> v), events := events w @ [HeaderSet k v]\<rparr>"

text \<open>
  \<^verbatim>\<open>session.get(url)\<close>: the request goes out with the headers of the session, and the
  cookies of a response that arrives are put into the jar of the session. The header map
  is read, not written. (A cookie of the jar is sent only by a session that has no
  \<^verbatim>\<open>Cookie\<close> header of its own; \<^verbatim>\<open>main\<close> sets that header before its first request.)
\<close>

definition session_get :: "env \<Rightarrow> world \<Rightarrow> string \<Rightarrow> (error + response) \<times> world" where
  "session_get env w url =
     (let w' = w\<lparr>events := events w @ [Request url (headers w)]\<rparr>
      in (case http_get env url (headers w) of
            None \<Rightarrow> (Inl RequestException, w')
          | Some r \<Rightarrow> (Inr r, w'\<lparr>cookies := extract_cookies_to_jar env (cookies w) r\<rparr>)))"

text \<open>
  \<^verbatim>\<open>r.raise_for_status()\<close> of \<^verbatim>\<open>requests\<close>: an \<^verbatim>\<open>HTTPError\<close> for a status code from 400 to
  599, made from the status code and \<^verbatim>\<open>r.url\<close>; nothing for any other code.
\<close>

definition raise_for_status :: "response \<Rightarrow> error + unit" where
  "raise_for_status r =
     (if 400 \<le> status_code r \<and> status_code r < 600
      then Inl (HTTPError (status_code r) (resp_url r))
      else Inr ())"

section \<open>Token fetcher\<close>

text \<open>
  \<^verbatim>\<open>re.search(r'<meta name="ol-csrfToken" content="([^"]*)"', text)\<close> and its group 1. At one
  position the pattern matches when the literal text stands there and a double quote
  follows later: the group takes the longest run without a double quote, and giving
  characters back cannot help, since the character after a shorter run is not a double
  quote. The search tries the positions from left to right.
\<close>

definition dquote :: char where
  "dquote = CHR 0x22"

definition csrf_open :: string where
  "csrf_open = ''<meta name='' @ [dquote] @ ''ol-csrfToken'' @ [dquote] @ '' content='' @ [dquote]"

definition match_here :: "string \<Rightarrow> string option" where
  "match_here s =
     (if startswith s csrf_open then
        (let rest = drop (length csrf_open) s;
             group1 = takeWhile (\<lambda>c. c \<noteq> dquote) rest
         in if length group1 < length rest then Some group1 else None)
      else None)"

fun re_search :: "string \<Rightarrow> string option" where
  "re_search [] = match_here []"
| "re_search (c # cs) =
     (case match_here (c # cs) of
        Some group1 \<Rightarrow> Some group1
      | None \<Rightarrow> re_search cs)"

text \<open>
  \<^verbatim>\<open>
  def get_csrf_token(session, base_url, project_id) -> Optional[str]:
      url = f"{base_url}/project/{project_id}"
      r = session.get(url)
      r.raise_for_status()
      match = re.search(r'<meta name="ol-csrfToken" content="([^"]*)"', r.text)
      return match.group(1) if match else None
  \<close>
\<close>

definition get_csrf_token ::
  "env \<Rightarrow> world \<Rightarrow> string \<Rightarrow> string \<Rightarrow> (error + string option) \<times> world" where
  "get_csrf_token env w base_url project_id =
     (let url = base_url @ ''/project/'' @ project_id
      in (case session_get env w url of
            (Inl e, w1) \<Rightarrow> (Inl e, w1)
          | (Inr r, w1) \<Rightarrow>
              (case raise_for_status r of
                 Inl e \<Rightarrow> (Inl e, w1)
               | Inr u \<Rightarrow> (Inr (re_search (resp_text r)), w1))))"

section \<open>Archive fetcher\<close>

text \<open>
  \<^verbatim>\<open>
  def download_zip(session, base_url, project_id) -> bytes:
      url = f"{base_url}/project/{project_id}/download/zip"
      r = session.get(url)
      r.raise_for_status()
      data = r.content
      if not data.startswith(b"PK"):
          ct = r.headers.get("Content-Type", "")
          preview = data[:200].decode("utf-8", errors="replace")
          raise RuntimeError(
              f"Server did not return a zip file (got Content-Type: {ct}). "
              f"First bytes: {preview!r}..."
          )
      return data
  \<close>
\<close>

definition download_zip ::
  "env \<Rightarrow> world \<Rightarrow> string \<Rightarrow> string \<Rightarrow> (error + bytes) \<times> world" where
  "download_zip env w base_url project_id =
     (let url = base_url @ ''/project/'' @ project_id @ ''/download/zip''
      in (case session_get env w url of
            (Inl e, w1) \<Rightarrow> (Inl e, w1)
          | (Inr r, w1) \<Rightarrow>
              (case raise_for_status r of
                 Inl e \<Rightarrow> (Inl e, w1)
               | Inr u \<Rightarrow>
                   (let data = content r
                    in if \<not> startswith data ''PK'' then
                         (let ct = (case resp_headers r ''Content-Type'' of
                                      None \<Rightarrow> [] | Some v \<Rightarrow> v);
                              preview = decode_replace env (take 200 data)
                          in (Inl (RuntimeError
                                (''Server did not return a zip file (got Content-Type: '' @ ct
                                 @ ''). '' @ ''First bytes: '' @ repr env preview @ ''...'')),
                              w1))
                       else (Inr data, w1)))))"

section \<open>Archive extractor\<close>

text \<open>
  The body of the loop of the flattening branch of \<^verbatim>\<open>extract_zip\<close>, for one member:
  \<^verbatim>\<open>
  if not info.filename.startswith(prefix):
      continue
  rel = info.filename[len(prefix) :].rstrip("/")
  if not rel:
      continue
  dest = output_dir / rel
  if info.is_dir():
      dest.mkdir(parents=True, exist_ok=True)
  else:
      dest.parent.mkdir(parents=True, exist_ok=True)
      dest.write_bytes(zf.read(info.filename))
  \<close>
  An error result stands for the exception alone; it does not say what had been written
  before.
\<close>

definition member_rel :: "string \<Rightarrow> zipinfo \<Rightarrow> string" where
  "member_rel pfx info = rstrip (drop (length pfx) (filename info)) ''/''"

definition flatten_member ::
  "zipfile \<Rightarrow> path \<Rightarrow> string \<Rightarrow> zipinfo \<Rightarrow> filesystem \<Rightarrow> error + filesystem" where
  "flatten_member zf output_dir pfx info fs =
     (if \<not> startswith (filename info) pfx then Inr fs
      else (let rel = member_rel pfx info
            in if rel = [] then Inr fs
               else (let dest = path_join output_dir rel
                     in if info_is_dir info then path_mkdir fs dest True True
                        else (case path_mkdir fs (butlast dest) True True of
                                Inl e \<Rightarrow> Inl e
                              | Inr fs1 \<Rightarrow>
                                  (case zf_read zf (filename info) of
                                     Inl e \<Rightarrow> Inl e
                                   | Inr bs \<Rightarrow> write_bytes fs1 dest bs)))))"

fun flatten_members ::
  "zipfile \<Rightarrow> path \<Rightarrow> string \<Rightarrow> zipinfo list \<Rightarrow> filesystem \<Rightarrow> error + filesystem" where
  "flatten_members zf output_dir pfx [] fs = Inr fs"
| "flatten_members zf output_dir pfx (info # infos) fs =
     (case flatten_member zf output_dir pfx info fs of
        Inl e \<Rightarrow> Inl e
      | Inr fs1 \<Rightarrow> flatten_members zf output_dir pfx infos fs1)"

text \<open>
  \<^verbatim>\<open>
  def extract_zip(zip_bytes, output_dir, flatten_single_root=True) -> None:
      output_dir = output_dir.resolve()
      output_dir.mkdir(parents=True, exist_ok=True)
      with zipfile.ZipFile(io.BytesIO(zip_bytes), "r") as zf:
          names = zf.namelist()
          single_root = _single_root_dir(names) if flatten_single_root else None
          if single_root:
              prefix = single_root + "/"
              for info in zf.infolist():
                  ...
          else:
              zf.extractall(str(output_dir))
  \<close>
  \<^verbatim>\<open>if single_root:\<close> is false for \<^verbatim>\<open>None\<close> and for the empty string.
\<close>

definition extract_zip ::
  "env \<Rightarrow> bytes \<Rightarrow> string \<Rightarrow> bool \<Rightarrow> filesystem \<Rightarrow> error + filesystem" where
  "extract_zip env zip_bytes output_dir flatten_single_root fs =
     (let out = resolve env output_dir
      in (case path_mkdir fs out True True of
            Inl e \<Rightarrow> Inl e
          | Inr fs1 \<Rightarrow>
              (case ZipFile env zip_bytes of
                 None \<Rightarrow> Inl BadZipFile
               | Some zf \<Rightarrow>
                   (let names = namelist zf;
                        single_root = (if flatten_single_root then single_root_dir names
                                       else None)
                    in (case single_root of
                          None \<Rightarrow> extractall out zf fs1
                        | Some root \<Rightarrow>
                            (if root \<noteq> [] then flatten_members zf out (root @ ''/'') zf fs1
                             else extractall out zf fs1))))))"

section \<open>Entry point\<close>

text \<open>
  The parsed command line, and \<^verbatim>\<open>main\<close> after \<^verbatim>\<open>parser.parse_args()\<close>:
  \<^verbatim>\<open>
  base_url = _normalize_base_url(args.base_url)
  session = requests.Session()
  session.headers["Cookie"] = _cookie_header(args.cookie)
  csrf = get_csrf_token(session, base_url, args.project_id)
  if csrf:
      session.headers["X-CSRF-Token"] = csrf
  zip_bytes = download_zip(session, base_url, args.project_id)
  extract_zip(zip_bytes, args.output_dir)
  print(f"Extracted to {args.output_dir.resolve()}")
  \<close>
  No exception is caught: the first error is the result of the run.
\<close>

record args =
  arg_project_id :: string
  arg_cookie :: string
  arg_base_url :: string
  arg_output_dir :: string

definition new_session :: "env \<Rightarrow> filesystem \<Rightarrow> world" where
  "new_session env fs =
     \<lparr>headers = default_headers env, events = [], files = fs, stdout = [],
      cookies = Map.empty\<rparr>"

definition main :: "env \<Rightarrow> args \<Rightarrow> filesystem \<Rightarrow> (error + unit) \<times> world" where
  "main env a fs =
     (let base_url = normalize_base_url (arg_base_url a);
          session = new_session env fs;
          session = set_header session ''Cookie'' (cookie_header (arg_cookie a))
      in (case get_csrf_token env session base_url (arg_project_id a) of
            (Inl e, w1) \<Rightarrow> (Inl e, w1)
          | (Inr csrf, w1) \<Rightarrow>
              (let w2 = (case csrf of
                           None \<Rightarrow> w1
                         | Some tok \<Rightarrow> if tok \<noteq> [] then set_header w1 ''X-CSRF-Token'' tok
                                       else w1)
               in (case download_zip env w2 base_url (arg_project_id a) of
                     (Inl e, w3) \<Rightarrow> (Inl e, w3)
                   | (Inr zip_bytes, w3) \<Rightarrow>
                       (case extract_zip env zip_bytes (arg_output_dir a) True (files w3) of
                          Inl e \<Rightarrow> (Inl e, w3)
                        | Inr fs' \<Rightarrow>
                            (Inr (),
                             w3\<lparr>files := fs',
                                stdout := stdout w3 @
                                  [''Extracted to '' @ path_str (resolve env (arg_output_dir a))]\<rparr>))))))"

text \<open>The events that change the header map of the session.\<close>

definition is_header_set :: "event \<Rightarrow> bool" where
  "is_header_set ev = (case ev of HeaderSet k v \<Rightarrow> True | Request u hs \<Rightarrow> False)"

section \<open>Reading back, and comparing file systems\<close>

text \<open>\<^verbatim>\<open>Path.read_bytes()\<close>: the bytes of the regular file a path leads to, if it leads to one.\<close>

definition read_bytes :: "filesystem \<Rightarrow> path \<Rightarrow> bytes option" where
  "read_bytes fs p =
     (case walk fs [] p of
        Inl e \<Rightarrow> None
      | Inr d \<Rightarrow> (case node_at fs d of Some (File bs) \<Rightarrow> Some bs | _ \<Rightarrow> None))"

text \<open>
  \<open>kext s t\<close>: every directory of \<open>s\<close> is a directory of \<open>t\<close>, and every regular file of \<open>s\<close>
  is a regular file of \<open>t\<close>, whatever its bytes. \<open>grows s t\<close>: \<open>t\<close> is \<open>s\<close> with new
  directories at paths where \<open>s\<close> has nothing.
\<close>

definition kext :: "filesystem \<Rightarrow> filesystem \<Rightarrow> bool" where
  "kext s t =
     (\<forall>p. (s p = Some Dir \<longrightarrow> t p = Some Dir)
        \<and> (\<forall>bs. s p = Some (File bs) \<longrightarrow> (\<exists>bs'. t p = Some (File bs'))))"

definition grows :: "filesystem \<Rightarrow> filesystem \<Rightarrow> bool" where
  "grows s t = (\<forall>p. t p = s p \<or> (s p = None \<and> t p = Some Dir))"

text \<open>
  An operation is replayable when a run of it that succeeded can be repeated on any file
  system \<open>t\<close> that still has the directories and files the run left: the repetition
  succeeds, creates and removes nothing, and at each path either agrees with the result of
  the first run or leaves \<open>t\<close> as it is where the first run changed nothing.
\<close>

definition replayable :: "(filesystem \<Rightarrow> error + filesystem) \<Rightarrow> bool" where
  "replayable f =
     (\<forall>s s1. f s = Inr s1 \<longrightarrow>
        kext s s1 \<and>
        (\<forall>t. kext s1 t \<longrightarrow>
           (\<exists>t1. f t = Inr t1 \<and> kext t t1 \<and> kext t1 t
                 \<and> (\<forall>p. t1 p = s1 p \<or> (t1 p = t p \<and> s1 p = s p)))))"

text \<open>A path made of plain names, as \<^verbatim>\<open>Path.resolve\<close> returns it.\<close>

definition canonical :: "path \<Rightarrow> bool" where
  "canonical p = (\<forall>c \<in> set p. c \<noteq> [] \<and> c \<noteq> ''.'' \<and> c \<noteq> ''..'')"

section \<open>A sample server and archive\<close>

text \<open>
  Concrete data for evaluating the functions: a project page that carries a token, an
  archive with the file \<^verbatim>\<open>proj/main.tex\<close> (content \<^verbatim>\<open>X\<close>) and the directory \<^verbatim>\<open>proj/sub/\<close>, and
  a server that answers the two URLs of project \<^verbatim>\<open>p1\<close>: the project page with a given
  status code and text, the download with a given status code and body. Every response
  with status 200 sets the cookie \<^verbatim>\<open>route=r1\<close>.
\<close>

definition sample_page :: string where
  "sample_page = ''<html><head>'' @ csrf_open @ ''abc123'' @ [dquote] @ ''></head></html>''"

definition sample_archive :: zipfile where
  "sample_archive =
     [\<lparr>filename = ''proj/main.tex'', file_data = ''X''\<rparr>,
      \<lparr>filename = ''proj/sub/'', file_data = []\<rparr>]"

text \<open>
  An archive with a member named like its root directory, \<^verbatim>\<open>proj\<close> next to \<^verbatim>\<open>proj/a.tex\<close>, and
  the same archive without that member.
\<close>

definition bare_archive :: zipfile where
  "bare_archive =
     [\<lparr>filename = ''proj'', file_data = ''B''\<rparr>,
      \<lparr>filename = ''proj/a.tex'', file_data = ''A''\<rparr>]"

definition plain_archive :: zipfile where
  "plain_archive = [\<lparr>filename = ''proj/a.tex'', file_data = ''A''\<rparr>]"

text \<open>An archive whose only member is the directory marker \<^verbatim>\<open>proj/\<close>.\<close>

definition marker_archive :: zipfile where
  "marker_archive = [\<lparr>filename = ''proj/'', file_data = []\<rparr>]"

definition sample_env :: "nat \<Rightarrow> string \<Rightarrow> nat \<Rightarrow> bytes \<Rightarrow> env" where
  "sample_env code page zip_code body =
     \<lparr>http_get = (\<lambda>url hs.
        if url = ''https://ol.example.com/project/p1'' then
          Some \<lparr>status_code = code, resp_url = url,
                resp_headers = [''Content-Type'' \<mapsto> ''text/html''],
                content = page, resp_text = page\<rparr>
        else if url = ''https://ol.example.com/project/p1/download/zip'' then
          Some \<lparr>status_code = zip_code, resp_url = url,
                resp_headers = [''Content-Type'' \<mapsto> ''text/html''],
                content = body, resp_text = body\<rparr>
        else None),
      decode_replace = (\<lambda>bs. bs),
      repr = (\<lambda>s. [CHR 0x27] @ s @ [CHR 0x27]),
      ZipFile = map_of [(''PK-sample'', sample_archive), (''PK-bare'', bare_archive),
                        (''PK-plain'', plain_archive), (''PK-marker'', marker_archive)],
      resolve = path_parts,
      default_headers = Map.empty,
      extract_cookies_to_jar =
        (\<lambda>jar r. if status_code r = 200 then jar(''route'' \<mapsto> ''r1'') else jar)\<rparr>"

definition sample_args :: args where
  "sample_args =
     \<lparr>arg_project_id = ''p1'', arg_cookie = ''s%3Aabc'',
      arg_base_url = ''https://ol.example.com/'', arg_output_dir = ''/D''\<rparr>"

section \<open>Properties of the string primitives\<close>

lemma rstrip_no_trailing: "rstrip s chars \<noteq> [] \<Longrightarrow> last (rstrip s chars) \<notin> set chars"
proof -
  assume ne: "rstrip s chars \<noteq> []"
  let ?d = "dropWhile (\<lambda>c. c \<in> set chars) (rev s)"
  from ne have dne: "?d \<noteq> []" by (simp add: rstrip_def)
  then have "hd ?d \<notin> set chars" using hd_dropWhile [of "\<lambda>c. c \<in> set chars" "rev s"] by simp
  moreover have "last (rev ?d) = hd ?d" using dne by (simp add: last_rev)
  ultimately show ?thesis by (simp add: rstrip_def)
qed

lemma rstrip_fixed: "(s = [] \<or> last s \<notin> set chars) \<Longrightarrow> rstrip s chars = s"
  by (cases s rule: rev_cases) (auto simp: rstrip_def)

lemma rstrip_idem: "rstrip (rstrip s chars) chars = rstrip s chars"
  using rstrip_no_trailing [of s chars] rstrip_fixed [of "rstrip s chars" chars] by blast

lemma rstrip_decomp: "\<exists>t. s = rstrip s chars @ t \<and> set t \<subseteq> set chars"
proof -
  let ?P = "\<lambda>c. c \<in> set chars"
  have "rev s = takeWhile ?P (rev s) @ dropWhile ?P (rev s)" by simp
  then have "s = rev (dropWhile ?P (rev s)) @ rev (takeWhile ?P (rev s))"
    by (metis rev_append rev_rev_ident)
  moreover have "set (rev (takeWhile ?P (rev s))) \<subseteq> set chars"
    by (auto dest: set_takeWhileD)
  ultimately show ?thesis unfolding rstrip_def by blast
qed

section \<open>Base-URL normalization\<close>

text \<open>
  Claim C8. For every base URL \<open>u\<close>, and so for every one that ends in one or more
  slashes, \<open>normalize_base_url u\<close> does not end in a slash; it is \<open>u\<close> without a run of
  slashes at its end; and normalizing twice is normalizing once.
\<close>

theorem normalize_base_url_no_trailing_slash_idempotent:
  "\<not> suffix ''/'' (normalize_base_url u)
   \<and> (\<exists>n. u = normalize_base_url u @ replicate n CHR ''/'')
   \<and> normalize_base_url (normalize_base_url u) = normalize_base_url u"
proof -
  have a: "\<not> suffix ''/'' (normalize_base_url u)"
  proof
    assume "suffix ''/'' (normalize_base_url u)"
    then obtain r where r: "normalize_base_url u = r @ ''/''" by (auto simp: suffix_def)
    then have "rstrip u ''/'' \<noteq> []" and "last (rstrip u ''/'') = CHR ''/''"
      by (simp_all add: normalize_base_url_def)
    with rstrip_no_trailing [of u "''/''"] show False by simp
  qed
  obtain t where t: "u = rstrip u ''/'' @ t" "set t \<subseteq> set ''/''"
    using rstrip_decomp [of u "''/''"] by blast
  have "t = replicate (length t) CHR ''/''"
    using t(2) by (intro replicate_length_same [symmetric]) auto
  with t(1) have b: "\<exists>n. u = normalize_base_url u @ replicate n CHR ''/''"
    unfolding normalize_base_url_def by metis
  have c: "normalize_base_url (normalize_base_url u) = normalize_base_url u"
    by (simp add: normalize_base_url_def rstrip_idem)
  from a b c show ?thesis by blast
qed

theorem normalize_base_url_witness:
  "normalize_base_url ''https://ol.example.com//'' = ''https://ol.example.com''
   \<and> \<not> suffix ''/'' (normalize_base_url ''https://ol.example.com//'')
   \<and> normalize_base_url (normalize_base_url ''https://ol.example.com//'')
       = normalize_base_url ''https://ol.example.com//''"
proof -
  have "normalize_base_url ''https://ol.example.com//'' = ''https://ol.example.com''"
    by (simp add: normalize_base_url_def rstrip_def)
  then show ?thesis
    using normalize_base_url_no_trailing_slash_idempotent [of "''https://ol.example.com//''"]
    by simp
qed

section \<open>Cookie header\<close>

lemma lower_key: "lower ''overleaf.sid='' = ''overleaf.sid=''"
  by (simp add: lower_def py_lower_char_def py_isupper_def)

lemma startswith_lower:
  assumes "lower p = p"
  shows "startswith (lower s) p = ci_startswith s p"
proof -
  have "prefix p (lower s) \<longleftrightarrow> length p \<le> length s \<and> take (length p) (lower s) = p"
    by (metis append_eq_conv_conj length_map lower_def prefix_def prefix_length_le
        take_is_prefix)
  then show ?thesis
    using assms by (simp add: startswith_def ci_startswith_def lower_def take_map)
qed

text \<open>
  Claim C4, as amended. The test and the result both use the trimmed cookie: the header
  is the trimmed cookie when the trimmed cookie case-insensitively starts with
  \<^verbatim>\<open>overleaf.sid=\<close>, and otherwise \<^verbatim>\<open>overleaf.sid=\<close> followed by the trimmed cookie. So the
  header is the cookie verbatim when the cookie has no surrounding whitespace and starts
  with the key.
\<close>

theorem cookie_header_trimmed:
  "cookie_header c =
     (if ci_startswith (strip c) ''overleaf.sid='' then strip c
      else ''overleaf.sid='' @ strip c)
   \<and> (strip c = c \<and> ci_startswith c ''overleaf.sid='' \<longrightarrow> cookie_header c = c)"
  using startswith_lower [OF lower_key, of "strip c"]
  by (auto simp: cookie_header_def)

theorem cookie_header_trimmed_witness:
  "strip ''Overleaf.SID=s%3Aabc'' = ''Overleaf.SID=s%3Aabc''
   \<and> ci_startswith ''Overleaf.SID=s%3Aabc'' ''overleaf.sid=''
   \<and> cookie_header ''Overleaf.SID=s%3Aabc'' = ''Overleaf.SID=s%3Aabc''
   \<and> cookie_header ''  s%3Aabc '' = ''overleaf.sid=s%3Aabc''"
proof -
  have a: "strip ''Overleaf.SID=s%3Aabc'' = ''Overleaf.SID=s%3Aabc''"
    by (simp add: strip_def py_isspace_def)
  have b: "ci_startswith ''Overleaf.SID=s%3Aabc'' ''overleaf.sid=''"
    by (simp add: ci_startswith_def lower_def py_lower_char_def py_isupper_def)
  have c: "strip ''  s%3Aabc '' = ''s%3Aabc''"
    by (simp add: strip_def py_isspace_def)
  have d: "\<not> ci_startswith ''s%3Aabc'' ''overleaf.sid=''"
    by (simp add: ci_startswith_def)
  show ?thesis
    using a b c d cookie_header_trimmed [of "''Overleaf.SID=s%3Aabc''"]
      cookie_header_trimmed [of "''  s%3Aabc ''"]
    by simp
qed

text \<open>
  The claim as written fails on both sides. A cookie that starts with the key and ends in
  a blank is not returned verbatim (the blank is trimmed); a cookie with a leading blank
  before the key does not itself start with the key, and still the key is not put in
  front of it.
\<close>

theorem cookie_header_verbatim_counterexample:
  "ci_startswith ''overleaf.sid=abc '' ''overleaf.sid=''
   \<and> cookie_header ''overleaf.sid=abc '' \<noteq> ''overleaf.sid=abc ''
   \<and> \<not> ci_startswith '' overleaf.sid=abc'' ''overleaf.sid=''
   \<and> cookie_header '' overleaf.sid=abc''
        \<noteq> ''overleaf.sid='' @ strip '' overleaf.sid=abc''"
  by (simp add: cookie_header_def startswith_def ci_startswith_def strip_def lower_def
      py_isspace_def py_lower_char_def py_isupper_def)

section \<open>Common-root detection: properties\<close>

lemma set_set_add: "set (set_add s x) = insert x (set s)"
  by (auto simp: set_add_def)

lemma distinct_set_add: "distinct s \<Longrightarrow> distinct (set_add s x)"
  by (auto simp: set_add_def)

lemma top_dirs_loop_set:
  "set (top_dirs_loop acc names)
     = set acc \<union> {hd (path_parts n) | n. n \<in> set names \<and> path_parts n \<noteq> []}"
  by (induction names arbitrary: acc) (auto simp: Let_def set_set_add)

lemma top_dirs_loop_distinct: "distinct acc \<Longrightarrow> distinct (top_dirs_loop acc names)"
  by (induction names arbitrary: acc) (auto simp: Let_def distinct_set_add)

lemma singleton_list_iff: "distinct xs \<Longrightarrow> (length xs = 1 \<and> hd xs = s) = (set xs = {s})"
proof (cases xs)
  case Nil
  then show ?thesis by simp
next
  case (Cons a as)
  assume "distinct xs"
  with Cons show ?thesis by (cases as) auto
qed

lemma single_root_dir_Some_iff:
  "single_root_dir names = Some s \<longleftrightarrow>
      {hd (path_parts n) | n. n \<in> set names \<and> path_parts n \<noteq> []} = {s}
      \<and> (\<exists>n \<in> set names. prefix (s @ ''/'') n)"
proof -
  let ?top = "top_dirs_loop [] names"
  have d: "distinct ?top" by (simp add: top_dirs_loop_distinct)
  have s: "set ?top = {hd (path_parts n) | n. n \<in> set names \<and> path_parts n \<noteq> []}"
    by (simp add: top_dirs_loop_set)
  have one: "(length ?top = 1 \<and> hd ?top = s) = (set ?top = {s})"
    using d by (rule singleton_list_iff)
  have ex: "list_ex (\<lambda>n. startswith n (s @ ''/'')) names = (\<exists>n \<in> set names. prefix (s @ ''/'') n)"
    by (simp add: list_ex_iff startswith_def)
  have "single_root_dir names = Some s \<longleftrightarrow>
          (length ?top = 1 \<and> hd ?top = s) \<and> list_ex (\<lambda>n. startswith n (s @ ''/'')) names"
    by (auto simp: single_root_dir_def Let_def)
  then show ?thesis
    using one ex unfolding s by blast
qed

text \<open>The three lists of names the specification gives as examples.\<close>

lemma single_root_dir_examples:
  "single_root_dir [''proj/a.tex'', ''proj/sub/b.tex''] = Some ''proj''
   \<and> single_root_dir [''a.tex'', ''b.tex''] = None
   \<and> single_root_dir [''proj/'', ''other/''] = None"
  by (simp add: single_root_dir_def path_parts_def set_add_def startswith_def)

section \<open>Token fetcher: properties\<close>

lemma takeWhile_split_iff:
  "(length (takeWhile P xs) < length xs) = (\<exists>post. xs = takeWhile P xs @ post \<and> post \<noteq> [] \<and> \<not> P (hd post))"
proof
  assume "length (takeWhile P xs) < length xs"
  then have ne: "dropWhile P xs \<noteq> []"
    by (metis append_Nil2 less_irrefl takeWhile_dropWhile_id)
  then have "\<not> P (hd (dropWhile P xs))" by (rule hd_dropWhile)
  with ne show "\<exists>post. xs = takeWhile P xs @ post \<and> post \<noteq> [] \<and> \<not> P (hd post)"
    by (metis takeWhile_dropWhile_id)
next
  assume "\<exists>post. xs = takeWhile P xs @ post \<and> post \<noteq> [] \<and> \<not> P (hd post)"
  then obtain post where "xs = takeWhile P xs @ post" "post \<noteq> []" by blast
  then show "length (takeWhile P xs) < length xs"
    by (metis append_eq_conv_conj length_append length_greater_0_conv less_add_same_cancel1)
qed

lemma match_here_Some:
  "match_here s = Some v \<longleftrightarrow> (\<exists>post. s = csrf_open @ v @ dquote # post \<and> dquote \<notin> set v)"
proof
  assume m: "match_here s = Some v"
  then have p: "prefix csrf_open s"
    by (auto simp: match_here_def startswith_def split: if_splits)
  then obtain rest where s: "s = csrf_open @ rest" by (auto simp: prefix_def)
  let ?P = "\<lambda>c. c \<noteq> dquote"
  from m s have v: "v = takeWhile ?P rest" and lt: "length (takeWhile ?P rest) < length rest"
    by (auto simp: match_here_def startswith_def Let_def split: if_splits)
  from lt obtain post where post: "rest = takeWhile ?P rest @ post" "post \<noteq> []" "\<not> ?P (hd post)"
    using takeWhile_split_iff [of ?P rest] by blast
  then obtain post' where "post = dquote # post'" by (cases post) auto
  with post v have "rest = v @ dquote # post'" by simp
  moreover have "dquote \<notin> set v" unfolding v by (auto dest: set_takeWhileD)
  ultimately show "\<exists>post. s = csrf_open @ v @ dquote # post \<and> dquote \<notin> set v"
    using s by blast
next
  assume "\<exists>post. s = csrf_open @ v @ dquote # post \<and> dquote \<notin> set v"
  then obtain post where s: "s = csrf_open @ v @ dquote # post" and nv: "dquote \<notin> set v" by blast
  have tw: "takeWhile (\<lambda>c. c \<noteq> dquote) (v @ dquote # post) = v"
    using nv by (induction v) auto
  show "match_here s = Some v"
    unfolding s by (simp add: match_here_def startswith_def Let_def tw)
qed

lemma match_here_None:
  "match_here s = None \<longleftrightarrow> \<not> (\<exists>v post. s = csrf_open @ v @ dquote # post)"
proof
  assume n: "match_here s = None"
  show "\<not> (\<exists>v post. s = csrf_open @ v @ dquote # post)"
  proof
    assume "\<exists>v post. s = csrf_open @ v @ dquote # post"
    then obtain v post where s: "s = csrf_open @ v @ dquote # post" by blast
    let ?P = "\<lambda>c. c \<noteq> dquote"
    let ?rest = "v @ dquote # post"
    have "dquote \<in> set ?rest" by simp
    then have "takeWhile ?P ?rest \<noteq> ?rest"
      by (metis (mono_tags, lifting) takeWhile_eq_all_conv)
    then have "length (takeWhile ?P ?rest) < length ?rest"
      by (metis length_takeWhile_le le_neq_implies_less takeWhile_eq_take take_all_iff order_refl)
    then have "match_here s \<noteq> None"
      unfolding s by (simp add: match_here_def startswith_def Let_def)
    with n show False by simp
  qed
next
  assume a: "\<not> (\<exists>v post. s = csrf_open @ v @ dquote # post)"
  show "match_here s = None"
  proof (rule ccontr)
    assume "match_here s \<noteq> None"
    then obtain v where "match_here s = Some v" by auto
    then show False using a match_here_Some by blast
  qed
qed


lemma re_search_None:
  "re_search s = None \<longleftrightarrow> \<not> (\<exists>pre v post. s = pre @ csrf_open @ v @ dquote # post)"
proof (induction s)
  case Nil
  show ?case by (simp add: match_here_None csrf_open_def)
next
  case (Cons c cs)
  have "(\<exists>pre v post. c # cs = pre @ csrf_open @ v @ dquote # post)
        \<longleftrightarrow> (\<exists>v post. c # cs = csrf_open @ v @ dquote # post)
            \<or> (\<exists>pre v post. cs = pre @ csrf_open @ v @ dquote # post)"
    (is "?L \<longleftrightarrow> ?A \<or> ?B")
  proof
    assume ?L
    then obtain pre v post where e: "c # cs = pre @ csrf_open @ v @ dquote # post" by blast
    show "?A \<or> ?B"
    proof (cases pre)
      case Nil
      with e show ?thesis by auto
    next
      case (Cons a pre')
      with e have "cs = pre' @ csrf_open @ v @ dquote # post" by simp
      then show ?thesis by blast
    qed
  next
    assume "?A \<or> ?B"
    then show ?L
    proof
      assume ?A
      then show ?L by (metis append_Nil)
    next
      assume ?B
      then obtain pre v post where "cs = pre @ csrf_open @ v @ dquote # post" by blast
      then have "c # cs = (c # pre) @ csrf_open @ v @ dquote # post" by simp
      then show ?L by blast
    qed
  qed
  then show ?case
    using Cons match_here_None [of "c # cs"] by (auto split: option.splits)
qed


lemma csrf_open_not_Nil: "csrf_open \<noteq> []"
  by (simp add: csrf_open_def)

lemma re_search_Some:
  "re_search s = Some v \<longleftrightarrow>
     (\<exists>pre post. s = pre @ csrf_open @ v @ dquote # post \<and> dquote \<notin> set v
        \<and> (\<forall>pre' v' post'. s = pre' @ csrf_open @ v' @ dquote # post'
              \<longrightarrow> length pre \<le> length pre'))"
  (is "_ \<longleftrightarrow> ?R s")
proof (induction s)
  case Nil
  have "match_here [] = None" by (simp add: match_here_None csrf_open_not_Nil)
  then show ?case by (simp add: csrf_open_not_Nil)
next
  case (Cons c cs)
  show ?case
  proof (cases "match_here (c # cs)")
    case (Some v0)
    then obtain post0 where d0: "c # cs = [] @ csrf_open @ v0 @ dquote # post0"
      and n0: "dquote \<notin> set v0"
      using match_here_Some [of "c # cs" v0] by auto
    have "?R (c # cs) \<longleftrightarrow> v = v0"
    proof
      assume "?R (c # cs)"
      then obtain pre post where d: "c # cs = pre @ csrf_open @ v @ dquote # post"
        and n: "dquote \<notin> set v"
        and m: "\<forall>pre' v' post'. c # cs = pre' @ csrf_open @ v' @ dquote # post'
              \<longrightarrow> length pre \<le> length pre'"
        by blast
      from m d0 have "length pre \<le> length ([]::string)" by blast
      then have "pre = []" by simp
      with d n have "match_here (c # cs) = Some v"
        using match_here_Some [of "c # cs" v] by auto
      with Some show "v = v0" by simp
    next
      assume "v = v0"
      with d0 n0 show "?R (c # cs)" by (metis le0 list.size(3))
    qed
    with Some show ?thesis by auto
  next
    case None
    then have no: "\<And>v' post'. c # cs \<noteq> csrf_open @ v' @ dquote # post'"
      using match_here_None [of "c # cs"] by blast
    have "?R (c # cs) \<longleftrightarrow> ?R cs"
    proof
      assume "?R (c # cs)"
      then obtain pre post where d: "c # cs = pre @ csrf_open @ v @ dquote # post"
        and n: "dquote \<notin> set v"
        and m: "\<forall>pre' v' post'. c # cs = pre' @ csrf_open @ v' @ dquote # post'
              \<longrightarrow> length pre \<le> length pre'"
        by blast
      from d no obtain pre1 where p1: "pre = c # pre1" by (cases pre) auto
      with d have d1: "cs = pre1 @ csrf_open @ v @ dquote # post" by simp
      have "\<forall>pre' v' post'. cs = pre' @ csrf_open @ v' @ dquote # post'
              \<longrightarrow> length pre1 \<le> length pre'"
      proof (intro allI impI)
        fix pre' v' post'
        assume "cs = pre' @ csrf_open @ v' @ dquote # post'"
        then have "c # cs = (c # pre') @ csrf_open @ v' @ dquote # post'" by simp
        with m have "length pre \<le> length (c # pre')" by blast
        with p1 show "length pre1 \<le> length pre'" by simp
      qed
      with d1 n show "?R cs" by blast
    next
      assume "?R cs"
      then obtain pre post where d: "cs = pre @ csrf_open @ v @ dquote # post"
        and n: "dquote \<notin> set v"
        and m: "\<forall>pre' v' post'. cs = pre' @ csrf_open @ v' @ dquote # post'
              \<longrightarrow> length pre \<le> length pre'"
        by blast
      from d have d1: "c # cs = (c # pre) @ csrf_open @ v @ dquote # post" by simp
      have "\<forall>pre' v' post'. c # cs = pre' @ csrf_open @ v' @ dquote # post'
              \<longrightarrow> length (c # pre) \<le> length pre'"
      proof (intro allI impI)
        fix pre' v' post'
        assume a: "c # cs = pre' @ csrf_open @ v' @ dquote # post'"
        with no obtain pre1 where p1: "pre' = c # pre1" by (cases pre') auto
        with a have "cs = pre1 @ csrf_open @ v' @ dquote # post'" by simp
        with m have "length pre \<le> length pre1" by blast
        with p1 show "length (c # pre) \<le> length pre'" by simp
      qed
      with d1 n show "?R (c # cs)" by blast
    qed
    with None Cons show ?thesis by simp
  qed
qed


lemma session_get_Some:
  "http_get env url (headers w) = Some r \<Longrightarrow>
     session_get env w url =
       (Inr r, w\<lparr>events := events w @ [Request url (headers w)],
                 cookies := extract_cookies_to_jar env (cookies w) r\<rparr>)"
  by (simp add: session_get_def)

lemma get_csrf_token_accepted:
  assumes "http_get env (base_url @ ''/project/'' @ project_id) (headers w) = Some r"
    and "\<not> (400 \<le> status_code r \<and> status_code r < 600)"
  shows "fst (get_csrf_token env w base_url project_id) = Inr (re_search (resp_text r))"
  using assms by (simp add: get_csrf_token_def session_get_Some raise_for_status_def)

lemma get_csrf_token_rejected:
  assumes "http_get env (base_url @ ''/project/'' @ project_id) (headers w) = Some r"
    and "400 \<le> status_code r" "status_code r < 600"
  shows "fst (get_csrf_token env w base_url project_id)
           = Inl (HTTPError (status_code r) (resp_url r))"
  using assms by (simp add: get_csrf_token_def session_get_Some raise_for_status_def)

text \<open>
  Claim C5, as amended. For a response with a success status, \<open>get_csrf_token\<close> returns no
  token exactly when the page has no occurrence of the opening text
  \<^verbatim>\<open><meta name="ol-csrfToken" content="\<close> with a double quote somewhere after it. Otherwise it
  returns the characters between the leftmost such opening text and the next double
  quote: they contain no double quote and may be empty. The closing \<^verbatim>\<open>>\<close> of the tag is
  not looked at. So when the first opening text of the page starts a marker
  \<^verbatim>\<open><meta name="ol-csrfToken" content="VALUE">\<close>, the result is \<^verbatim>\<open>VALUE\<close>.
\<close>

theorem get_csrf_token_leftmost_marker:
  assumes "http_get env (base_url @ ''/project/'' @ project_id) (headers w) = Some r"
    and "200 \<le> status_code r" and "status_code r < 300"
  shows
   "(fst (get_csrf_token env w base_url project_id) = Inr None \<longleftrightarrow>
       \<not> (\<exists>pre v post. resp_text r = pre @ csrf_open @ v @ dquote # post))
    \<and> (fst (get_csrf_token env w base_url project_id) = Inr (Some v) \<longleftrightarrow>
         (\<exists>pre post. resp_text r = pre @ csrf_open @ v @ dquote # post \<and> dquote \<notin> set v
            \<and> (\<forall>pre' v' post'. resp_text r = pre' @ csrf_open @ v' @ dquote # post'
                  \<longrightarrow> length pre \<le> length pre')))
    \<and> (\<forall>pre post.
          resp_text r = pre @ csrf_open @ v @ dquote # CHR ''>'' # post \<and> dquote \<notin> set v
          \<and> (\<forall>pre' rest. resp_text r = pre' @ csrf_open @ rest \<longrightarrow> length pre \<le> length pre')
          \<longrightarrow> fst (get_csrf_token env w base_url project_id) = Inr (Some v))"
proof -
  have ok: "fst (get_csrf_token env w base_url project_id) = Inr (re_search (resp_text r))"
    using assms by (intro get_csrf_token_accepted) auto
  have a: "fst (get_csrf_token env w base_url project_id) = Inr None \<longleftrightarrow>
       \<not> (\<exists>pre v post. resp_text r = pre @ csrf_open @ v @ dquote # post)"
    unfolding ok using re_search_None [of "resp_text r"] by simp
  have b: "fst (get_csrf_token env w base_url project_id) = Inr (Some v) \<longleftrightarrow>
         (\<exists>pre post. resp_text r = pre @ csrf_open @ v @ dquote # post \<and> dquote \<notin> set v
            \<and> (\<forall>pre' v' post'. resp_text r = pre' @ csrf_open @ v' @ dquote # post'
                  \<longrightarrow> length pre \<le> length pre'))"
    unfolding ok using re_search_Some [of "resp_text r" v] by simp
  have c: "\<forall>pre post.
          resp_text r = pre @ csrf_open @ v @ dquote # CHR ''>'' # post \<and> dquote \<notin> set v
          \<and> (\<forall>pre' rest. resp_text r = pre' @ csrf_open @ rest \<longrightarrow> length pre \<le> length pre')
          \<longrightarrow> fst (get_csrf_token env w base_url project_id) = Inr (Some v)"
  proof (intro allI impI)
    fix pre post
    assume h: "resp_text r = pre @ csrf_open @ v @ dquote # CHR ''>'' # post \<and> dquote \<notin> set v
          \<and> (\<forall>pre' rest. resp_text r = pre' @ csrf_open @ rest \<longrightarrow> length pre \<le> length pre')"
    then have "\<forall>pre' v' post'. resp_text r = pre' @ csrf_open @ v' @ dquote # post'
                  \<longrightarrow> length pre \<le> length pre'" by blast
    with h have "re_search (resp_text r) = Some v"
      using re_search_Some [of "resp_text r" v] by blast
    with ok show "fst (get_csrf_token env w base_url project_id) = Inr (Some v)" by simp
  qed
  from a b c show ?thesis by blast
qed

lemma re_search_sample_page: "re_search sample_page = Some ''abc123''"
  by (simp add: sample_page_def csrf_open_def dquote_def match_here_def startswith_def)


lemma sample_get_page:
  "http_get (sample_env code page zcode body) (''https://ol.example.com'' @ ''/project/'' @ ''p1'') hs
     = Some \<lparr>status_code = code, resp_url = ''https://ol.example.com/project/p1'',
             resp_headers = [''Content-Type'' \<mapsto> ''text/html''],
             content = page, resp_text = page\<rparr>"
  by (simp add: sample_env_def)

lemma sample_get_zip:
  "http_get (sample_env code page zcode body)
      (''https://ol.example.com'' @ ''/project/'' @ ''p1'' @ ''/download/zip'') hs
     = Some \<lparr>status_code = zcode, resp_url = ''https://ol.example.com/project/p1/download/zip'',
             resp_headers = [''Content-Type'' \<mapsto> ''text/html''],
             content = body, resp_text = body\<rparr>"
  by (simp add: sample_env_def)

theorem get_csrf_token_leftmost_marker_witness:
  "http_get (sample_env 200 sample_page 200 []) (''https://ol.example.com'' @ ''/project/'' @ ''p1'')
      (headers (new_session (sample_env 200 sample_page 200 []) Map.empty))
     = Some \<lparr>status_code = 200, resp_url = ''https://ol.example.com/project/p1'',
             resp_headers = [''Content-Type'' \<mapsto> ''text/html''],
             content = sample_page, resp_text = sample_page\<rparr>
   \<and> fst (get_csrf_token (sample_env 200 sample_page 200 [])
            (new_session (sample_env 200 sample_page 200 []) Map.empty)
            ''https://ol.example.com'' ''p1'') = Inr (Some ''abc123'')
   \<and> (\<exists>pre post. sample_page = pre @ csrf_open @ ''abc123'' @ dquote # post)"
proof -
  let ?env = "sample_env 200 sample_page 200 []"
  let ?r = "\<lparr>status_code = 200, resp_url = ''https://ol.example.com/project/p1'',
             resp_headers = [''Content-Type'' \<mapsto> ''text/html''],
             content = sample_page, resp_text = sample_page\<rparr>"
  have g: "http_get ?env (''https://ol.example.com'' @ ''/project/'' @ ''p1'')
      (headers (new_session ?env Map.empty)) = Some ?r"
    by (rule sample_get_page)
  have ev: "fst (get_csrf_token ?env (new_session ?env Map.empty)
             ''https://ol.example.com'' ''p1'') = Inr (Some ''abc123'')"
    using get_csrf_token_accepted [OF g] by (simp add: re_search_sample_page)
  have "(fst (get_csrf_token ?env (new_session ?env Map.empty)
             ''https://ol.example.com'' ''p1'') = Inr (Some ''abc123'')) =
         (\<exists>pre post. resp_text ?r = pre @ csrf_open @ ''abc123'' @ dquote # post
            \<and> dquote \<notin> set ''abc123''
            \<and> (\<forall>pre' v' post'. resp_text ?r = pre' @ csrf_open @ v' @ dquote # post'
                  \<longrightarrow> length pre \<le> length pre'))"
    using get_csrf_token_leftmost_marker [OF g, of "''abc123''"] by simp
  with ev have "\<exists>pre post. sample_page = pre @ csrf_open @ ''abc123'' @ dquote # post"
    by auto
  with g ev show ?thesis by blast
qed

text \<open>
  The claim as written fails in both directions. A page whose tag is closed by \<^verbatim>\<open> />\<close> has
  no marker of the exact shape (the two characters \<^verbatim>\<open>">\<close> do not occur in it), and a token
  is returned all the same. A page with two markers contains the marker of the second
  value, and the first value is returned.
\<close>

theorem get_csrf_token_exact_marker_counterexample:
  "\<not> sublist (dquote # ''>'') (csrf_open @ ''abc'' @ dquote # '' />'')
   \<and> fst (get_csrf_token (sample_env 200 (csrf_open @ ''abc'' @ dquote # '' />'') 200 [])
            (new_session (sample_env 200 (csrf_open @ ''abc'' @ dquote # '' />'') 200 []) Map.empty)
            ''https://ol.example.com'' ''p1'') = Inr (Some ''abc'')
   \<and> sublist (csrf_open @ ''second'' @ dquote # ''>'')
         (csrf_open @ ''first'' @ dquote # ''>'' @ csrf_open @ ''second'' @ dquote # ''>'')
   \<and> fst (get_csrf_token
            (sample_env 200
               (csrf_open @ ''first'' @ dquote # ''>'' @ csrf_open @ ''second'' @ dquote # ''>'') 200 [])
            (new_session (sample_env 200 [] 200 []) Map.empty)
            ''https://ol.example.com'' ''p1'') = Inr (Some ''first'')"
proof -
  have a: "\<not> sublist (dquote # ''>'') (csrf_open @ ''abc'' @ dquote # '' />'')"
    by (simp add: csrf_open_def dquote_def sublist_Cons_right)
  have b: "re_search (csrf_open @ ''abc'' @ dquote # '' />'') = Some ''abc''"
    by (simp add: csrf_open_def dquote_def match_here_def startswith_def)
  have c: "sublist (csrf_open @ ''second'' @ dquote # ''>'')
         (csrf_open @ ''first'' @ dquote # ''>'' @ csrf_open @ ''second'' @ dquote # ''>'')"
    by (simp add: csrf_open_def dquote_def sublist_Cons_right)
  have d: "re_search (csrf_open @ ''first'' @ dquote # ''>'' @ csrf_open @ ''second'' @ dquote # ''>'')
             = Some ''first''"
    by (simp add: csrf_open_def dquote_def match_here_def startswith_def)
  show ?thesis
    using a b c d
    by (simp add: get_csrf_token_accepted [OF sample_get_page])
qed

section \<open>Archive fetcher: properties\<close>

lemma download_zip_accepted:
  assumes "http_get env (base_url @ ''/project/'' @ project_id @ ''/download/zip'') (headers w)
             = Some r"
    and "\<not> (400 \<le> status_code r \<and> status_code r < 600)"
  shows "fst (download_zip env w base_url project_id) =
           (if startswith (content r) ''PK'' then Inr (content r)
            else Inl (RuntimeError
                   (''Server did not return a zip file (got Content-Type: ''
                    @ (case resp_headers r ''Content-Type'' of None \<Rightarrow> [] | Some v \<Rightarrow> v)
                    @ ''). '' @ ''First bytes: ''
                    @ repr env (decode_replace env (take 200 (content r))) @ ''...'')))"
  using assms
  by (simp add: download_zip_def session_get_Some raise_for_status_def Let_def)

lemma download_zip_rejected:
  assumes "http_get env (base_url @ ''/project/'' @ project_id @ ''/download/zip'') (headers w)
             = Some r"
    and "400 \<le> status_code r" "status_code r < 600"
  shows "fst (download_zip env w base_url project_id)
           = Inl (HTTPError (status_code r) (resp_url r))"
  using assms by (simp add: download_zip_def session_get_Some raise_for_status_def)

lemma startswith_PK: "startswith bs ''PK'' = (take 2 bs = ''PK'')"
proof (cases bs)
  case Nil
  then show ?thesis by (simp add: startswith_def)
next
  case (Cons a as)
  then show ?thesis by (cases as) (auto simp: startswith_def)
qed

text \<open>
  Claim C2. For a response with a success status, \<open>download_zip\<close> raises its
  \<open>RuntimeError\<close> (the format error) if and only if the first two bytes of the body are not
  \<^verbatim>\<open>PK\<close>. The message then holds the \<^verbatim>\<open>Content-Type\<close> header of the response (empty when there
  is none) and the \<^verbatim>\<open>repr\<close> of the first 200 bytes of the body, decoded with replacement.
  When the check passes, the result is the body as it is.
\<close>

theorem download_zip_magic_check:
  assumes "http_get env (base_url @ ''/project/'' @ project_id @ ''/download/zip'') (headers w)
             = Some r"
    and "200 \<le> status_code r" and "status_code r < 300"
  shows
   "((\<exists>msg. fst (download_zip env w base_url project_id) = Inl (RuntimeError msg))
        \<longleftrightarrow> take 2 (content r) \<noteq> ''PK'')
    \<and> (take 2 (content r) \<noteq> ''PK'' \<longrightarrow>
          fst (download_zip env w base_url project_id) =
            Inl (RuntimeError
                   (''Server did not return a zip file (got Content-Type: ''
                    @ (case resp_headers r ''Content-Type'' of None \<Rightarrow> [] | Some v \<Rightarrow> v)
                    @ ''). First bytes: ''
                    @ repr env (decode_replace env (take 200 (content r))) @ ''...'')))
    \<and> (take 2 (content r) = ''PK'' \<longrightarrow>
          fst (download_zip env w base_url project_id) = Inr (content r))"
proof -
  have "\<not> (400 \<le> status_code r \<and> status_code r < 600)" using assms(3) by simp
  from download_zip_accepted [OF assms(1) this] show ?thesis
    by (simp add: startswith_PK)
qed

theorem download_zip_magic_check_witness:
  "http_get (sample_env 200 sample_page 200 ''<html>login</html>'')
      (''https://ol.example.com'' @ ''/project/'' @ ''p1'' @ ''/download/zip'')
      (headers (new_session (sample_env 200 sample_page 200 ''<html>login</html>'') Map.empty))
     = Some \<lparr>status_code = 200, resp_url = ''https://ol.example.com/project/p1/download/zip'',
             resp_headers = [''Content-Type'' \<mapsto> ''text/html''],
             content = ''<html>login</html>'', resp_text = ''<html>login</html>''\<rparr>
   \<and> fst (download_zip (sample_env 200 sample_page 200 ''<html>login</html>'')
            (new_session (sample_env 200 sample_page 200 ''<html>login</html>'') Map.empty)
            ''https://ol.example.com'' ''p1'')
       = Inl (RuntimeError
           (''Server did not return a zip file (got Content-Type: text/html). ''
            @ ''First bytes: '' @ [CHR 0x27] @ ''<html>login</html>'' @ [CHR 0x27] @ ''...''))"
proof -
  let ?env = "sample_env 200 sample_page 200 ''<html>login</html>''"
  have g: "http_get ?env (''https://ol.example.com'' @ ''/project/'' @ ''p1'' @ ''/download/zip'')
      (headers (new_session ?env Map.empty))
     = Some \<lparr>status_code = 200, resp_url = ''https://ol.example.com/project/p1/download/zip'',
             resp_headers = [''Content-Type'' \<mapsto> ''text/html''],
             content = ''<html>login</html>'', resp_text = ''<html>login</html>''\<rparr>"
    by (rule sample_get_zip)
  show ?thesis
    using g download_zip_magic_check [OF g]
    by (simp add: sample_env_def)
qed

section \<open>Entry point: properties\<close>

lemma get_csrf_token_world:
  "snd (get_csrf_token env w base_url project_id)
     = w\<lparr>events := events w @ [Request (base_url @ ''/project/'' @ project_id) (headers w)],
         cookies := (case http_get env (base_url @ ''/project/'' @ project_id) (headers w) of
                       None \<Rightarrow> cookies w
                     | Some r \<Rightarrow> extract_cookies_to_jar env (cookies w) r)\<rparr>"
  by (simp add: get_csrf_token_def session_get_def Let_def split: option.splits sum.splits)

lemma download_zip_world:
  "snd (download_zip env w base_url project_id)
     = w\<lparr>events := events w @
           [Request (base_url @ ''/project/'' @ project_id @ ''/download/zip'') (headers w)],
         cookies := (case http_get env (base_url @ ''/project/'' @ project_id @ ''/download/zip'')
                            (headers w) of
                       None \<Rightarrow> cookies w
                     | Some r \<Rightarrow> extract_cookies_to_jar env (cookies w) r)\<rparr>"
  by (simp add: download_zip_def session_get_def Let_def split: option.splits sum.splits)

lemma main_token_error:
  assumes "fst (get_csrf_token env (set_header (new_session env fs) ''Cookie''
                   (cookie_header (arg_cookie a)))
                 (normalize_base_url (arg_base_url a)) (arg_project_id a)) = Inl e"
  shows "fst (main env a fs) = Inl e"
  using assms by (auto simp: main_def Let_def split: prod.splits sum.splits)

lemma main_download_error:
  assumes "get_csrf_token env (set_header (new_session env fs) ''Cookie''
                   (cookie_header (arg_cookie a)))
                 (normalize_base_url (arg_base_url a)) (arg_project_id a) = (Inr csrf, w1)"
    and "fst (download_zip env
                (case csrf of None \<Rightarrow> w1
                 | Some tok \<Rightarrow> if tok \<noteq> [] then set_header w1 ''X-CSRF-Token'' tok else w1)
                (normalize_base_url (arg_base_url a)) (arg_project_id a)) = Inl e"
  shows "fst (main env a fs) = Inl e"
  using assms by (auto simp: main_def Let_def split: prod.splits sum.splits)


text \<open>
  Claim C6, as amended. For every response whose status code is from 400 to 599, both
  \<open>get_csrf_token\<close> and \<open>download_zip\<close> fail with the \<open>HTTPError\<close> that carries the status
  code and the URL of the response; and \<open>main\<close> catches nothing: an error of the token
  fetch, and an error of the download after a token fetch that returned, is the result of
  the run. For a response with any other status code neither function raises an
  \<open>HTTPError\<close>.
\<close>

theorem http_error_raised_and_propagated:
  "(\<forall>r. http_get env (base_url @ ''/project/'' @ project_id) (headers w) = Some r
         \<and> 400 \<le> status_code r \<and> status_code r < 600
       \<longrightarrow> fst (get_csrf_token env w base_url project_id)
             = Inl (HTTPError (status_code r) (resp_url r)))
   \<and> (\<forall>r. http_get env (base_url @ ''/project/'' @ project_id @ ''/download/zip'') (headers w)
            = Some r
         \<and> 400 \<le> status_code r \<and> status_code r < 600
       \<longrightarrow> fst (download_zip env w base_url project_id)
             = Inl (HTTPError (status_code r) (resp_url r)))
   \<and> (fst (get_csrf_token env
              (set_header (new_session env fs) ''Cookie'' (cookie_header (arg_cookie a)))
              (normalize_base_url (arg_base_url a)) (arg_project_id a)) = Inl e
       \<longrightarrow> fst (main env a fs) = Inl e)
   \<and> (\<forall>csrf w1.
         get_csrf_token env
              (set_header (new_session env fs) ''Cookie'' (cookie_header (arg_cookie a)))
              (normalize_base_url (arg_base_url a)) (arg_project_id a) = (Inr csrf, w1)
         \<and> fst (download_zip env
                (case csrf of None \<Rightarrow> w1
                 | Some tok \<Rightarrow> if tok \<noteq> [] then set_header w1 ''X-CSRF-Token'' tok else w1)
                (normalize_base_url (arg_base_url a)) (arg_project_id a)) = Inl e
       \<longrightarrow> fst (main env a fs) = Inl e)
   \<and> (\<forall>r c u. http_get env (base_url @ ''/project/'' @ project_id) (headers w) = Some r
         \<and> \<not> (400 \<le> status_code r \<and> status_code r < 600)
       \<longrightarrow> fst (get_csrf_token env w base_url project_id) \<noteq> Inl (HTTPError c u))
   \<and> (\<forall>r c u. http_get env (base_url @ ''/project/'' @ project_id @ ''/download/zip'')
              (headers w) = Some r
         \<and> \<not> (400 \<le> status_code r \<and> status_code r < 600)
       \<longrightarrow> fst (download_zip env w base_url project_id) \<noteq> Inl (HTTPError c u))"
proof -
  have p1: "\<forall>r c u. http_get env (base_url @ ''/project/'' @ project_id) (headers w) = Some r
         \<and> \<not> (400 \<le> status_code r \<and> status_code r < 600)
       \<longrightarrow> fst (get_csrf_token env w base_url project_id) \<noteq> Inl (HTTPError c u)"
    using get_csrf_token_accepted [of env base_url project_id w] by auto
  have p2: "\<forall>r c u. http_get env (base_url @ ''/project/'' @ project_id @ ''/download/zip'')
              (headers w) = Some r
         \<and> \<not> (400 \<le> status_code r \<and> status_code r < 600)
       \<longrightarrow> fst (download_zip env w base_url project_id) \<noteq> Inl (HTTPError c u)"
    using download_zip_accepted [of env base_url project_id w] by auto
  from p1 p2 show ?thesis
    using get_csrf_token_rejected [of env base_url project_id w]
      download_zip_rejected [of env base_url project_id w]
      main_token_error [of env fs a e] main_download_error [of env fs a _ _ e]
    by blast
qed

lemma sample_base: "normalize_base_url (arg_base_url sample_args) = ''https://ol.example.com''"
  by (simp add: sample_args_def normalize_base_url_def rstrip_def)

lemma sample_cookie: "cookie_header (arg_cookie sample_args) = ''overleaf.sid=s%3Aabc''"
  by (simp add: sample_args_def cookie_header_def strip_def py_isspace_def lower_def
      py_lower_char_def py_isupper_def startswith_def)

theorem http_error_raised_and_propagated_witness:
  "fst (get_csrf_token (sample_env 404 sample_page 200 [])
         (new_session (sample_env 404 sample_page 200 []) Map.empty)
         ''https://ol.example.com'' ''p1'')
     = Inl (HTTPError 404 ''https://ol.example.com/project/p1'')
   \<and> fst (main (sample_env 404 sample_page 200 []) sample_args Map.empty)
     = Inl (HTTPError 404 ''https://ol.example.com/project/p1'')
   \<and> fst (main (sample_env 200 sample_page 500 []) sample_args Map.empty)
     = Inl (HTTPError 500 ''https://ol.example.com/project/p1/download/zip'')"
proof -
  let ?e4 = "sample_env 404 sample_page 200 []"
  let ?e5 = "sample_env 200 sample_page 500 []"
  let ?s4 = "set_header (new_session ?e4 Map.empty) ''Cookie''
               (cookie_header (arg_cookie sample_args))"
  let ?s5 = "set_header (new_session ?e5 Map.empty) ''Cookie''
               (cookie_header (arg_cookie sample_args))"
  note t4 = http_error_raised_and_propagated
     [of ?e4 "''https://ol.example.com''" "''p1''" "new_session ?e4 Map.empty" Map.empty
         sample_args "HTTPError 404 ''https://ol.example.com/project/p1''"]
  have a: "fst (get_csrf_token ?e4 (new_session ?e4 Map.empty) ''https://ol.example.com'' ''p1'')
     = Inl (HTTPError 404 ''https://ol.example.com/project/p1'')"
    using t4 sample_get_page [of 404 sample_page 200 "[]"] by simp
  have "fst (get_csrf_token ?e4 ?s4 ''https://ol.example.com'' ''p1'')
     = Inl (HTTPError 404 ''https://ol.example.com/project/p1'')"
    using get_csrf_token_rejected [OF sample_get_page [of 404 sample_page 200 "[]"]] by simp
  then have b: "fst (main ?e4 sample_args Map.empty)
     = Inl (HTTPError 404 ''https://ol.example.com/project/p1'')"
    using t4 by (simp add: sample_base) (simp add: sample_args_def)
  note t5 = http_error_raised_and_propagated
     [of ?e5 "''https://ol.example.com''" "''p1''" "new_session ?e5 Map.empty" Map.empty
         sample_args "HTTPError 500 ''https://ol.example.com/project/p1/download/zip''"]
  have "fst (get_csrf_token ?e5 ?s5 ''https://ol.example.com'' ''p1'') = Inr (Some ''abc123'')"
    using get_csrf_token_accepted [OF sample_get_page [of 200 sample_page 500 "[]"]]
    by (simp add: re_search_sample_page)
  then obtain w1 where tok: "get_csrf_token ?e5 ?s5 ''https://ol.example.com'' ''p1''
     = (Inr (Some ''abc123''), w1)"
    by (metis prod.collapse)
  have dl: "\<And>w. fst (download_zip ?e5 w ''https://ol.example.com'' ''p1'')
     = Inl (HTTPError 500 ''https://ol.example.com/project/p1/download/zip'')"
    using download_zip_rejected [OF sample_get_zip [of 200 sample_page 500 "[]"]] by simp
  have c: "fst (main ?e5 sample_args Map.empty)
     = Inl (HTTPError 500 ''https://ol.example.com/project/p1/download/zip'')"
    using t5 tok dl by (simp add: sample_base) (simp add: sample_args_def)
  from a b c show ?thesis by blast
qed

text \<open>
  The claim as written speaks of every status that is not 2xx. \<^verbatim>\<open>raise_for_status\<close> raises
  for 4xx and 5xx only: with the status 304, which is not a success status, the token
  fetch returns a token and the download returns the body.
\<close>

theorem not_modified_status_counterexample:
  "\<not> (200 \<le> (304::nat) \<and> (304::nat) < 300)
   \<and> fst (get_csrf_token (sample_env 304 sample_page 304 [])
         (new_session (sample_env 304 sample_page 304 []) Map.empty)
         ''https://ol.example.com'' ''p1'') = Inr (Some ''abc123'')
   \<and> fst (download_zip (sample_env 304 sample_page 304 ''PK-sample'')
         (new_session (sample_env 304 sample_page 304 ''PK-sample'') Map.empty)
         ''https://ol.example.com'' ''p1'') = Inr ''PK-sample''"
  using get_csrf_token_accepted [OF sample_get_page [of 304 sample_page 304 "[]"]]
    download_zip_accepted [OF sample_get_zip [of 304 sample_page 304 "''PK-sample''"]]
  by (simp add: re_search_sample_page startswith_def)

lemma main_world:
  "events (snd (main env a fs)) =
     (let base = normalize_base_url (arg_base_url a);
          ck = cookie_header (arg_cookie a);
          h1 = (default_headers env)(''Cookie'' \<mapsto> ck);
          u1 = base @ ''/project/'' @ arg_project_id a;
          u2 = base @ ''/project/'' @ arg_project_id a @ ''/download/zip''
      in [HeaderSet ''Cookie'' ck, Request u1 h1] @
         (case fst (get_csrf_token env (set_header (new_session env fs) ''Cookie'' ck) base
                      (arg_project_id a)) of
            Inl e \<Rightarrow> []
          | Inr None \<Rightarrow> [Request u2 h1]
          | Inr (Some tok) \<Rightarrow>
              if tok \<noteq> [] then [HeaderSet ''X-CSRF-Token'' tok,
                                  Request u2 (h1(''X-CSRF-Token'' \<mapsto> tok))]
              else [Request u2 h1]))"
proof -
  let ?base = "normalize_base_url (arg_base_url a)"
  let ?ck = "cookie_header (arg_cookie a)"
  let ?h1 = "(default_headers env)(''Cookie'' \<mapsto> ?ck)"
  let ?u1 = "?base @ ''/project/'' @ arg_project_id a"
  let ?u2 = "?base @ ''/project/'' @ arg_project_id a @ ''/download/zip''"
  let ?s1 = "set_header (new_session env fs) ''Cookie'' ?ck"
  obtain res w1 where g: "get_csrf_token env ?s1 ?base (arg_project_id a) = (res, w1)"
    by (cases "get_csrf_token env ?s1 ?base (arg_project_id a)") auto
  have "snd (get_csrf_token env ?s1 ?base (arg_project_id a)) = w1" using g by simp
  then have ev1: "events w1 = [HeaderSet ''Cookie'' ?ck, Request ?u1 ?h1]"
    and hd1: "headers w1 = ?h1"
    unfolding get_csrf_token_world by (auto simp: set_header_def new_session_def)
  show ?thesis
  proof (cases res)
    case (Inl e)
    with g have "snd (main env a fs) = w1" by (simp add: main_def Let_def)
    with ev1 g Inl show ?thesis by (simp add: Let_def)
  next
    case (Inr csrf)
    let ?w2 = "case csrf of None \<Rightarrow> w1
                 | Some tok \<Rightarrow> if tok \<noteq> [] then set_header w1 ''X-CSRF-Token'' tok else w1"
    obtain res2 w3 where d: "download_zip env ?w2 ?base (arg_project_id a) = (res2, w3)"
      by (cases "download_zip env ?w2 ?base (arg_project_id a)") auto
    have "snd (download_zip env ?w2 ?base (arg_project_id a)) = w3" using d by simp
    then have ev3: "events w3 = events ?w2 @ [Request ?u2 (headers ?w2)]"
      unfolding download_zip_world by auto
    have m: "events (snd (main env a fs)) = events w3"
      using g Inr d by (simp add: main_def Let_def split: sum.splits)
    show ?thesis
    proof (cases csrf)
      case None
      with m ev3 ev1 hd1 g Inr show ?thesis by (simp add: Let_def)
    next
      case (Some tok)
      with m ev3 ev1 hd1 g Inr show ?thesis by (simp add: Let_def set_header_def)
    qed
  qed
qed

text \<open>
  Claim C9, as amended. \<open>get_csrf_token\<close> leaves the run as it found it but for its one
  request: the request is added to the log and the cookies of the response go into the
  jar of the session; the header map of the session is not changed. Over a whole run of
  \<open>main\<close> the log starts with the \<^verbatim>\<open>Cookie\<close> header set while the session is built and the
  request for the project page. After that the headers are set at most once: the header
  \<^verbatim>\<open>X-CSRF-Token\<close> is set, before the request for the archive, exactly when the token fetch
  returned a token that is not empty. With no token, and with a token whose value is
  empty, no header is set after the session is built.
\<close>

theorem session_headers_set_once_for_token:
  "snd (get_csrf_token env w base_url project_id)
     = w\<lparr>events := events w @ [Request (base_url @ ''/project/'' @ project_id) (headers w)],
         cookies := (case http_get env (base_url @ ''/project/'' @ project_id) (headers w) of
                       None \<Rightarrow> cookies w
                     | Some r \<Rightarrow> extract_cookies_to_jar env (cookies w) r)\<rparr>
   \<and> headers (snd (get_csrf_token env w base_url project_id)) = headers w
   \<and> (let base = normalize_base_url (arg_base_url a);
           ck = cookie_header (arg_cookie a);
           h1 = (default_headers env)(''Cookie'' \<mapsto> ck);
           u1 = base @ ''/project/'' @ arg_project_id a;
           u2 = base @ ''/project/'' @ arg_project_id a @ ''/download/zip'';
           token = fst (get_csrf_token env (set_header (new_session env fs) ''Cookie'' ck) base
                      (arg_project_id a))
       in events (snd (main env a fs)) =
            [HeaderSet ''Cookie'' ck, Request u1 h1] @
            (case token of
               Inl e \<Rightarrow> []
             | Inr None \<Rightarrow> [Request u2 h1]
             | Inr (Some tok) \<Rightarrow>
                 if tok \<noteq> [] then [HeaderSet ''X-CSRF-Token'' tok,
                                     Request u2 (h1(''X-CSRF-Token'' \<mapsto> tok))]
                 else [Request u2 h1])
          \<and> filter is_header_set (events (snd (main env a fs))) =
              HeaderSet ''Cookie'' ck #
              (case token of
                 Inl e \<Rightarrow> []
               | Inr None \<Rightarrow> []
               | Inr (Some tok) \<Rightarrow> if tok \<noteq> [] then [HeaderSet ''X-CSRF-Token'' tok] else []))"
proof -
  have a: "snd (get_csrf_token env w base_url project_id)
     = w\<lparr>events := events w @ [Request (base_url @ ''/project/'' @ project_id) (headers w)],
         cookies := (case http_get env (base_url @ ''/project/'' @ project_id) (headers w) of
                       None \<Rightarrow> cookies w
                     | Some r \<Rightarrow> extract_cookies_to_jar env (cookies w) r)\<rparr>"
    by (rule get_csrf_token_world)
  have b: "headers (snd (get_csrf_token env w base_url project_id)) = headers w"
    unfolding a by simp
  show ?thesis
    unfolding Let_def
    apply (intro conjI)
       apply (rule a)
      apply (rule b)
     apply (rule main_world [unfolded Let_def])
    apply (simp add: main_world [unfolded Let_def] is_header_set_def
        split: sum.splits option.splits)
    done
qed

theorem session_headers_set_once_for_token_witness:
  "events (snd (main (sample_env 200 sample_page 200 ''PK-sample'') sample_args Map.empty)) =
     [HeaderSet ''Cookie'' ''overleaf.sid=s%3Aabc'',
      Request ''https://ol.example.com/project/p1'' [''Cookie'' \<mapsto> ''overleaf.sid=s%3Aabc''],
      HeaderSet ''X-CSRF-Token'' ''abc123'',
      Request ''https://ol.example.com/project/p1/download/zip''
        [''Cookie'' \<mapsto> ''overleaf.sid=s%3Aabc'', ''X-CSRF-Token'' \<mapsto> ''abc123'']]
   \<and> cookies (snd (get_csrf_token (sample_env 200 sample_page 200 ''PK-sample'')
                  (new_session (sample_env 200 sample_page 200 ''PK-sample'') Map.empty)
                  ''https://ol.example.com'' ''p1'')) = [''route'' \<mapsto> ''r1'']
   \<and> headers (snd (get_csrf_token (sample_env 200 sample_page 200 ''PK-sample'')
                  (new_session (sample_env 200 sample_page 200 ''PK-sample'') Map.empty)
                  ''https://ol.example.com'' ''p1'')) = Map.empty"
proof -
  let ?env = "sample_env 200 sample_page 200 ''PK-sample''"
  have tok: "fst (get_csrf_token ?env
               (set_header (new_session ?env Map.empty) ''Cookie'' ''overleaf.sid=s%3Aabc'')
               ''https://ol.example.com'' ''p1'') = Inr (Some ''abc123'')"
    using get_csrf_token_accepted [OF sample_get_page [of 200 sample_page 200 "''PK-sample''"]]
    by (simp add: re_search_sample_page)
  have dh: "default_headers ?env = Map.empty" by (simp add: sample_env_def)
  have pid: "arg_project_id sample_args = ''p1''" by (simp add: sample_args_def)
  note t = session_headers_set_once_for_token
      [of ?env "new_session ?env Map.empty" "''https://ol.example.com''" "''p1''"
          sample_args Map.empty]
  have e: "events (snd (main ?env sample_args Map.empty)) =
     [HeaderSet ''Cookie'' ''overleaf.sid=s%3Aabc'',
      Request ''https://ol.example.com/project/p1'' [''Cookie'' \<mapsto> ''overleaf.sid=s%3Aabc''],
      HeaderSet ''X-CSRF-Token'' ''abc123'',
      Request ''https://ol.example.com/project/p1/download/zip''
        [''Cookie'' \<mapsto> ''overleaf.sid=s%3Aabc'', ''X-CSRF-Token'' \<mapsto> ''abc123'']]"
    using t by (simp add: Let_def sample_base sample_cookie tok dh pid)
  from t have "snd (get_csrf_token ?env (new_session ?env Map.empty)
                  ''https://ol.example.com'' ''p1'')
     = (new_session ?env Map.empty)\<lparr>events := events (new_session ?env Map.empty) @
           [Request (''https://ol.example.com'' @ ''/project/'' @ ''p1'')
              (headers (new_session ?env Map.empty))],
         cookies := (case http_get ?env (''https://ol.example.com'' @ ''/project/'' @ ''p1'')
                            (headers (new_session ?env Map.empty)) of
                       None \<Rightarrow> cookies (new_session ?env Map.empty)
                     | Some r \<Rightarrow> extract_cookies_to_jar ?env
                                  (cookies (new_session ?env Map.empty)) r)\<rparr>"
    by blast
  then have c: "cookies (snd (get_csrf_token ?env (new_session ?env Map.empty)
                  ''https://ol.example.com'' ''p1'')) = [''route'' \<mapsto> ''r1'']"
    by (simp add: sample_get_page) (simp add: sample_env_def new_session_def)
  from t have h: "headers (snd (get_csrf_token ?env (new_session ?env Map.empty)
                  ''https://ol.example.com'' ''p1'')) = Map.empty"
    by (simp add: new_session_def dh)
  from e c h show ?thesis by blast
qed

text \<open>
  The claim as written has the headers set once, by the token attachment, when a token
  was found. A page whose tag has an empty value, \<^verbatim>\<open><meta name="ol-csrfToken" content="">\<close>,
  gives a token, the empty one; \<^verbatim>\<open>if csrf:\<close> is false for it, and the only header ever set is
  the \<^verbatim>\<open>Cookie\<close> header of the session as it is built.
\<close>

theorem empty_token_not_attached_counterexample:
  "fst (get_csrf_token (sample_env 200 (csrf_open @ dquote # ''>'') 200 ''PK-sample'')
          (set_header
             (new_session (sample_env 200 (csrf_open @ dquote # ''>'') 200 ''PK-sample'') Map.empty)
             ''Cookie'' ''overleaf.sid=s%3Aabc'')
          ''https://ol.example.com'' ''p1'') = Inr (Some [])
   \<and> filter is_header_set
         (events (snd (main (sample_env 200 (csrf_open @ dquote # ''>'') 200 ''PK-sample'')
                         sample_args Map.empty)))
       = [HeaderSet ''Cookie'' ''overleaf.sid=s%3Aabc'']"
proof -
  let ?env = "sample_env 200 (csrf_open @ dquote # ''>'') 200 ''PK-sample''"
  have r: "re_search (csrf_open @ dquote # ''>'') = Some []"
    by (simp add: csrf_open_def dquote_def match_here_def startswith_def)
  have tok: "fst (get_csrf_token ?env
               (set_header (new_session ?env Map.empty) ''Cookie'' ''overleaf.sid=s%3Aabc'')
               ''https://ol.example.com'' ''p1'') = Inr (Some [])"
    using get_csrf_token_accepted
      [OF sample_get_page [of 200 "csrf_open @ dquote # ''>''" 200 "''PK-sample''"]]
    by (simp add: r)
  have pid: "arg_project_id sample_args = ''p1''" by (simp add: sample_args_def)
  have "filter is_header_set (events (snd (main ?env sample_args Map.empty)))
       = [HeaderSet ''Cookie'' ''overleaf.sid=s%3Aabc'']"
    using main_world [of ?env sample_args Map.empty]
    by (simp add: Let_def sample_base sample_cookie tok pid is_header_set_def)
  with tok show ?thesis by blast
qed

section \<open>File system: properties\<close>

lemma kext_refl: "kext s s"
  by (simp add: kext_def)

lemma kext_trans: "kext s t \<Longrightarrow> kext t u \<Longrightarrow> kext s u"
  unfolding kext_def by (metis)

lemma grows_kext: "grows s t \<Longrightarrow> kext s t"
  unfolding grows_def kext_def by (metis option.distinct(1))

lemma grows_refl: "grows s s"
  by (simp add: grows_def)

lemma grows_trans: "grows s t \<Longrightarrow> grows t u \<Longrightarrow> grows s u"
  unfolding grows_def by metis

lemma node_at_kext_Dir: "kext s t \<Longrightarrow> node_at s p = Some Dir \<Longrightarrow> node_at t p = Some Dir"
  by (auto simp: node_at_def kext_def split: if_splits)

lemma node_at_kext_File:
  "kext s t \<Longrightarrow> node_at s p = Some (File bs) \<Longrightarrow> \<exists>bs'. node_at t p = Some (File bs')"
  by (auto simp: node_at_def kext_def split: if_splits)

lemma node_at_kext_some: "kext s t \<Longrightarrow> node_at s p \<noteq> None \<Longrightarrow> node_at t p \<noteq> None"
  by (metis node.exhaust node_at_kext_Dir node_at_kext_File option.exhaust option.distinct(1))

lemma walk_kext: "walk s cur cs = Inr d \<Longrightarrow> kext s t \<Longrightarrow> walk t cur cs = Inr d"
proof (induction cs arbitrary: cur)
  case Nil
  then show ?case by simp
next
  case (Cons c cs)
  from Cons.prems(1) have n: "node_at s cur = Some Dir"
    by (auto split: option.splits node.splits)
  with Cons.prems(1) have "walk s (step cur c) cs = Inr d" by simp
  then have "walk t (step cur c) cs = Inr d" using Cons.prems(2) by (rule Cons.IH)
  moreover have "node_at t cur = Some Dir" using Cons.prems(2) n by (rule node_at_kext_Dir)
  ultimately show ?case by simp
qed

lemma walk_append:
  "walk fs cur (xs @ ys) = (case walk fs cur xs of Inl e \<Rightarrow> Inl e | Inr d \<Rightarrow> walk fs d ys)"
  by (induction xs arbitrary: cur) (auto split: option.splits node.splits)

lemma is_dir_iff: "is_dir s p = (\<exists>d. walk s [] p = Inr d \<and> node_at s d = Some Dir)"
  by (auto simp: is_dir_def split: sum.splits)

lemma exists_iff: "exists s p = (\<exists>d. walk s [] p = Inr d \<and> node_at s d \<noteq> None)"
  by (auto simp: exists_def split: sum.splits)

lemma is_dir_kext: "is_dir s p \<Longrightarrow> kext s t \<Longrightarrow> is_dir t p"
  unfolding is_dir_iff using walk_kext node_at_kext_Dir by blast

lemma exists_kext: "exists s p \<Longrightarrow> kext s t \<Longrightarrow> exists t p"
  unfolding exists_iff using walk_kext node_at_kext_some by blast

lemma is_dir_exists: "is_dir s p \<Longrightarrow> exists s p"
  unfolding is_dir_iff exists_iff by auto

lemma parent_dir_kext: "parent_dir s p = Inr d \<Longrightarrow> kext s t \<Longrightarrow> parent_dir t p = Inr d"
proof -
  assume a: "parent_dir s p = Inr d" and k: "kext s t"
  from a have w: "walk s [] (butlast p) = Inr d" and n: "node_at s d = Some Dir"
    by (auto simp: parent_dir_def split: sum.splits option.splits node.splits)
  from w k have "walk t [] (butlast p) = Inr d" by (rule walk_kext)
  moreover from k n have "node_at t d = Some Dir" by (rule node_at_kext_Dir)
  ultimately show ?thesis by (simp add: parent_dir_def)
qed

lemma parent_dir_Dir: "parent_dir s p = Inr d \<Longrightarrow> node_at s d = Some Dir"
  by (auto simp: parent_dir_def split: sum.splits option.splits node.splits)

text \<open>A path leads where its parent directory and its last component lead.\<close>

lemma walk_last:
  assumes "p \<noteq> []"
  shows "walk fs [] p =
           (case walk fs [] (butlast p) of
              Inl e \<Rightarrow> Inl e
            | Inr d \<Rightarrow> (case node_at fs d of
                          None \<Rightarrow> Inl FileNotFoundError
                        | Some (File b) \<Rightarrow> Inl NotADirectoryError
                        | Some Dir \<Rightarrow> Inr (step d (last p))))"
proof -
  from assms have "p = butlast p @ [last p]" by simp
  then have "walk fs [] p = walk fs [] (butlast p @ [last p])" by simp
  also have "\<dots> = (case walk fs [] (butlast p) of Inl e \<Rightarrow> Inl e | Inr d \<Rightarrow> walk fs d [last p])"
    by (rule walk_append)
  finally show ?thesis by (auto split: sum.splits option.splits node.splits)
qed

lemma walk_parent_dir:
  assumes "p \<noteq> []"
  shows "walk fs [] p = (case parent_dir fs p of Inl e \<Rightarrow> Inl e | Inr d \<Rightarrow> Inr (step d (last p)))"
  using walk_last [OF assms, of fs]
  by (auto simp: parent_dir_def split: sum.splits option.splits node.splits)

lemma is_dir_os_mkdir: "is_dir t p \<Longrightarrow> os_mkdir t p = Inl FileExistsError"
proof (cases "p = []")
  case True
  then show ?thesis by (simp add: os_mkdir_def)
next
  case False
  assume "is_dir t p"
  then obtain d where "parent_dir t p = Inr d" "node_at t (step d (last p)) = Some Dir"
    using walk_parent_dir [OF False, of t]
    by (auto simp: is_dir_def split: sum.splits)
  with False show ?thesis by (simp add: os_mkdir_def Let_def)
qed

lemma os_mkdir_Inr:
  assumes "os_mkdir s p = Inr s'"
  shows "grows s s' \<and> is_dir s' p"
proof -
  from assms have ne: "p \<noteq> []" by (auto simp: os_mkdir_def split: if_splits)
  from assms ne obtain d where d: "parent_dir s p = Inr d"
    and n: "node_at s (step d (last p)) = None"
    and s': "s' = s(step d (last p) \<mapsto> Dir)"
    by (auto simp: os_mkdir_def Let_def split: sum.splits if_splits)
  from n have tn: "step d (last p) \<noteq> []" "s (step d (last p)) = None"
    by (auto simp: node_at_def split: if_splits)
  have g: "grows s s'" unfolding grows_def s' using tn by auto
  then have "kext s s'" by (rule grows_kext)
  with d have "parent_dir s' p = Inr d" by (rule parent_dir_kext)
  moreover have "node_at s' (step d (last p)) = Some Dir"
    using tn by (simp add: node_at_def s')
  ultimately have "is_dir s' p"
    using walk_parent_dir [OF ne, of s'] by (simp add: is_dir_def)
  with g show ?thesis by blast
qed

lemma path_mkdir_existing: "is_dir t p \<Longrightarrow> path_mkdir t p parents True = Inr t"
  by (subst path_mkdir.simps) (simp add: is_dir_os_mkdir)

lemma path_mkdir_Inr:
  "path_mkdir s p parents exist_ok = Inr s' \<Longrightarrow> grows s s' \<and> is_dir s' p"
proof (induction s p parents exist_ok arbitrary: s' rule: path_mkdir.induct)
  case (1 fs p parents exist_ok)
  show ?case
  proof (cases "os_mkdir fs p")
    case (Inr fs')
    with "1.prems" have "s' = fs'" by (subst (asm) path_mkdir.simps) simp
    with Inr show ?thesis using os_mkdir_Inr by blast
  next
    case (Inl e)
    show ?thesis
    proof (cases "e = FileNotFoundError")
      case True
      with "1.prems" Inl have pp: "parents" "p \<noteq> []"
        by (subst (asm) path_mkdir.simps; auto split: if_splits)+
      from "1.prems" Inl True pp obtain fs1 where
        a: "path_mkdir fs (butlast p) True True = Inr fs1"
        and b: "path_mkdir fs1 p False exist_ok = Inr s'"
        by (subst (asm) path_mkdir.simps) (auto split: sum.splits)
      from "1.IH"(1) [OF Inl True _ a] pp have g1: "grows fs fs1" by simp
      from "1.IH"(2) [OF Inl True _ a b] pp have "grows fs1 s' \<and> is_dir s' p" by simp
      with g1 show ?thesis using grows_trans by blast
    next
      case False
      with "1.prems" Inl have "s' = fs" "is_dir fs p"
        by (subst (asm) path_mkdir.simps; auto split: if_splits)+
      then show ?thesis by (simp add: grows_refl)
    qed
  qed
qed

section \<open>Replayable operations\<close>

lemma replayable_ensure:
  assumes post: "\<And>s s1. f s = Inr s1 \<Longrightarrow> grows s s1 \<and> Q s1"
    and mono: "\<And>s t. Q s \<Longrightarrow> kext s t \<Longrightarrow> Q t"
    and skip: "\<And>t. Q t \<Longrightarrow> f t = Inr t"
  shows "replayable f"
  unfolding replayable_def
proof (intro allI impI conjI)
  fix s s1
  assume f: "f s = Inr s1"
  from post [OF f] show "kext s s1" using grows_kext by blast
next
  fix s s1 t
  assume f: "f s = Inr s1" and k: "kext s1 t"
  from post [OF f] have g: "grows s s1" and q: "Q s1" by auto
  from mono [OF q k] have "f t = Inr t" by (rule skip)
  moreover have "\<forall>p. t p = s1 p \<or> (t p = t p \<and> s1 p = s p)"
  proof
    fix p
    from g have "s1 p = s p \<or> (s p = None \<and> s1 p = Some Dir)" by (simp add: grows_def)
    then show "t p = s1 p \<or> (t p = t p \<and> s1 p = s p)"
      using k by (auto simp: kext_def)
  qed
  ultimately show "\<exists>t1. f t = Inr t1 \<and> kext t t1 \<and> kext t1 t
                      \<and> (\<forall>p. t1 p = s1 p \<or> (t1 p = t p \<and> s1 p = s p))"
    using kext_refl by blast
qed

lemma replayable_skip: "replayable (\<lambda>s. Inr s)"
  by (rule replayable_ensure [where Q = "\<lambda>s. True"]) (auto simp: grows_refl)

lemma replayable_fail: "replayable (\<lambda>s. Inl e)"
  by (simp add: replayable_def)

lemma replayable_bind:
  assumes f: "replayable f" and g: "replayable g"
  shows "replayable (\<lambda>s. case f s of Inl e \<Rightarrow> Inl e | Inr s1 \<Rightarrow> g s1)"
  unfolding replayable_def
proof (intro allI impI)
  fix s s2
  assume h: "(case f s of Inl e \<Rightarrow> Inl e | Inr s1 \<Rightarrow> g s1) = Inr s2"
  then obtain s1 where fs: "f s = Inr s1" and gs: "g s1 = Inr s2"
    by (auto split: sum.splits)
  from f fs have k1: "kext s s1"
    and r1: "\<And>t. kext s1 t \<Longrightarrow> \<exists>t1. f t = Inr t1 \<and> kext t t1 \<and> kext t1 t
                 \<and> (\<forall>p. t1 p = s1 p \<or> (t1 p = t p \<and> s1 p = s p))"
    unfolding replayable_def by blast+
  from g gs have k2: "kext s1 s2"
    and r2: "\<And>t. kext s2 t \<Longrightarrow> \<exists>t1. g t = Inr t1 \<and> kext t t1 \<and> kext t1 t
                 \<and> (\<forall>p. t1 p = s2 p \<or> (t1 p = t p \<and> s2 p = s1 p))"
    unfolding replayable_def by blast+
  have a: "kext s s2" using k1 k2 by (rule kext_trans)
  have b: "\<forall>t. kext s2 t \<longrightarrow>
         (\<exists>t2. (case f t of Inl e \<Rightarrow> Inl e | Inr s1 \<Rightarrow> g s1) = Inr t2 \<and> kext t t2 \<and> kext t2 t
               \<and> (\<forall>p. t2 p = s2 p \<or> (t2 p = t p \<and> s2 p = s p)))"
  proof (intro allI impI)
    fix t
    assume kt: "kext s2 t"
    have "kext s1 t" using k2 kt by (rule kext_trans)
    from r1 [OF this] obtain t1 where ft: "f t = Inr t1" and tt1: "kext t t1" and t1t: "kext t1 t"
      and p1: "\<forall>p. t1 p = s1 p \<or> (t1 p = t p \<and> s1 p = s p)" by blast
    have "kext s2 t1" using kt tt1 by (rule kext_trans)
    from r2 [OF this] obtain t2 where gt: "g t1 = Inr t2" and t1t2: "kext t1 t2"
      and t2t1: "kext t2 t1"
      and p2: "\<forall>p. t2 p = s2 p \<or> (t2 p = t1 p \<and> s2 p = s1 p)" by blast
    have "\<forall>p. t2 p = s2 p \<or> (t2 p = t p \<and> s2 p = s p)"
    proof
      fix p
      from p1 have "t1 p = s1 p \<or> (t1 p = t p \<and> s1 p = s p)" by blast
      moreover from p2 have "t2 p = s2 p \<or> (t2 p = t1 p \<and> s2 p = s1 p)" by blast
      ultimately show "t2 p = s2 p \<or> (t2 p = t p \<and> s2 p = s p)" by auto
    qed
    moreover have "kext t t2" using tt1 t1t2 by (rule kext_trans)
    moreover have "kext t2 t" using t2t1 t1t by (rule kext_trans)
    ultimately show "\<exists>t2. (case f t of Inl e \<Rightarrow> Inl e | Inr s1 \<Rightarrow> g s1) = Inr t2 \<and> kext t t2
               \<and> kext t2 t \<and> (\<forall>p. t2 p = s2 p \<or> (t2 p = t p \<and> s2 p = s p))"
      using ft gt by auto
  qed
  from a b show "kext s s2 \<and> (\<forall>t. kext s2 t \<longrightarrow>
         (\<exists>t2. (case f t of Inl e \<Rightarrow> Inl e | Inr s1 \<Rightarrow> g s1) = Inr t2 \<and> kext t t2 \<and> kext t2 t
               \<and> (\<forall>p. t2 p = s2 p \<or> (t2 p = t p \<and> s2 p = s p))))" by blast
qed

lemma replayable_idem:
  assumes "replayable f" and "f s = Inr s1"
  shows "f s1 = Inr s1"
proof -
  from assms obtain t1 where t1: "f s1 = Inr t1"
    and p: "\<forall>p. t1 p = s1 p \<or> (t1 p = s1 p \<and> s1 p = s p)"
    unfolding replayable_def using kext_refl by blast
  from p have "t1 = s1" by (intro ext) auto
  with t1 show ?thesis by simp
qed

lemma replayable_kext: "replayable f \<Longrightarrow> f s = Inr s1 \<Longrightarrow> kext s s1"
  unfolding replayable_def by blast

lemma replayable_path_mkdir: "replayable (\<lambda>s. path_mkdir s p parents True)"
proof (rule replayable_ensure [where Q = "\<lambda>s. is_dir s p"])
  fix s s1
  assume "path_mkdir s p parents True = Inr s1"
  then show "grows s s1 \<and> is_dir s1 p" by (rule path_mkdir_Inr)
next
  fix s t
  assume "is_dir s p" "kext s t"
  then show "is_dir t p" by (rule is_dir_kext)
next
  fix t
  assume "is_dir t p"
  then show "path_mkdir t p parents True = Inr t" by (rule path_mkdir_existing)
qed

lemma write_bytes_Inr:
  assumes "write_bytes s p bs = Inr s1"
  shows "\<exists>d. p \<noteq> [] \<and> parent_dir s p = Inr d \<and> step d (last p) \<noteq> []
             \<and> s (step d (last p)) \<noteq> Some Dir \<and> s1 = s(step d (last p) \<mapsto> File bs)"
proof -
  from assms have ne: "p \<noteq> []" by (auto simp: write_bytes_def split: if_splits)
  from assms ne obtain d where d: "parent_dir s p = Inr d"
    and n: "node_at s (step d (last p)) \<noteq> Some Dir"
    and s1: "s1 = s(step d (last p) \<mapsto> File bs)"
    by (auto simp: write_bytes_def Let_def split: sum.splits if_splits)
  from n have "step d (last p) \<noteq> []" "s (step d (last p)) \<noteq> Some Dir"
    by (auto simp: node_at_def split: if_splits)
  with ne d s1 show ?thesis by blast
qed

lemma replayable_write_bytes: "replayable (\<lambda>s. write_bytes s p bs)"
  unfolding replayable_def
proof (intro allI impI)
  fix s s1
  assume w: "write_bytes s p bs = Inr s1"
  from write_bytes_Inr [OF w] obtain d where ne: "p \<noteq> []" and d: "parent_dir s p = Inr d"
    and tn: "step d (last p) \<noteq> []" and nd: "s (step d (last p)) \<noteq> Some Dir"
    and s1: "s1 = s(step d (last p) \<mapsto> File bs)" by blast
  let ?g = "step d (last p)"
  have k: "kext s s1"
    unfolding kext_def s1 using nd by auto
  have "\<forall>t. kext s1 t \<longrightarrow>
          (\<exists>t1. write_bytes t p bs = Inr t1 \<and> kext t t1 \<and> kext t1 t
                \<and> (\<forall>q. t1 q = s1 q \<or> (t1 q = t q \<and> s1 q = s q)))"
  proof (intro allI impI)
    fix t
    assume kt: "kext s1 t"
    have "kext s t" using k kt by (rule kext_trans)
    with d have dt: "parent_dir t p = Inr d" by (rule parent_dir_kext)
    from kt obtain b' where tg: "t ?g = Some (File b')"
      unfolding kext_def s1 by (metis fun_upd_same)
    then have "node_at t ?g \<noteq> Some Dir" using tn by (simp add: node_at_def)
    with ne dt have wt: "write_bytes t p bs = Inr (t(?g \<mapsto> File bs))"
      by (simp add: write_bytes_def Let_def)
    have "kext t (t(?g \<mapsto> File bs))" unfolding kext_def using tg by auto
    moreover have "kext (t(?g \<mapsto> File bs)) t" unfolding kext_def using tg by auto
    moreover have "\<forall>q. (t(?g \<mapsto> File bs)) q = s1 q \<or> ((t(?g \<mapsto> File bs)) q = t q \<and> s1 q = s q)"
      unfolding s1 by auto
    ultimately show "\<exists>t1. write_bytes t p bs = Inr t1 \<and> kext t t1 \<and> kext t1 t
                \<and> (\<forall>q. t1 q = s1 q \<or> (t1 q = t q \<and> s1 q = s q))"
      using wt by blast
  qed
  with k show "kext s s1 \<and> (\<forall>t. kext s1 t \<longrightarrow>
          (\<exists>t1. write_bytes t p bs = Inr t1 \<and> kext t t1 \<and> kext t1 t
                \<and> (\<forall>q. t1 q = s1 q \<or> (t1 q = t q \<and> s1 q = s q))))" by blast
qed

lemma replayable_flatten_member: "replayable (flatten_member zf output_dir pfx info)"
proof -
  let ?rel = "member_rel pfx info"
  let ?dest = "path_join output_dir ?rel"
  have w: "replayable (\<lambda>s. case zf_read zf (filename info) of
                               Inl e \<Rightarrow> Inl e | Inr bs \<Rightarrow> write_bytes s ?dest bs)"
    by (cases "zf_read zf (filename info)") (simp_all add: replayable_fail replayable_write_bytes)
  have f: "replayable (\<lambda>s. case path_mkdir s (butlast ?dest) True True of
                       Inl e \<Rightarrow> Inl e
                     | Inr s1 \<Rightarrow> (case zf_read zf (filename info) of
                               Inl e \<Rightarrow> Inl e | Inr bs \<Rightarrow> write_bytes s1 ?dest bs))"
    using replayable_path_mkdir w by (rule replayable_bind)
  have e: "flatten_member zf output_dir pfx info =
      (if \<not> startswith (filename info) pfx then (\<lambda>s. Inr s)
       else if ?rel = [] then (\<lambda>s. Inr s)
       else if info_is_dir info then (\<lambda>s. path_mkdir s ?dest True True)
       else (\<lambda>s. case path_mkdir s (butlast ?dest) True True of
                       Inl e \<Rightarrow> Inl e
                     | Inr s1 \<Rightarrow> (case zf_read zf (filename info) of
                               Inl e \<Rightarrow> Inl e | Inr bs \<Rightarrow> write_bytes s1 ?dest bs)))"
    by (intro ext) (simp add: flatten_member_def Let_def)
  show ?thesis
    unfolding e using f by (simp add: replayable_skip replayable_path_mkdir)
qed

lemma replayable_flatten_members: "replayable (flatten_members zf output_dir pfx infos)"
proof (induction infos)
  case Nil
  have "flatten_members zf output_dir pfx [] = (\<lambda>s. Inr s)" by (intro ext) simp
  then show ?case by (simp add: replayable_skip)
next
  case (Cons info infos)
  have "flatten_members zf output_dir pfx (info # infos) =
          (\<lambda>s. case flatten_member zf output_dir pfx info s of
                  Inl e \<Rightarrow> Inl e | Inr s1 \<Rightarrow> flatten_members zf output_dir pfx infos s1)"
    by (intro ext) simp
  then show ?case
    using replayable_bind [OF replayable_flatten_member Cons.IH] by simp
qed

lemma try_mkdir_grows: "try_mkdir s p = (r, s1) \<Longrightarrow> grows s s1"
  by (auto simp: try_mkdir_def grows_refl split: sum.splits dest: os_mkdir_Inr)

lemma try_mkdir_None: "try_mkdir s p = (None, s1) \<Longrightarrow> is_dir s1 p"
  by (auto simp: try_mkdir_def split: sum.splits dest: os_mkdir_Inr)

lemma makedirs_grows: "makedirs s p = (r, s1) \<Longrightarrow> grows s s1"
proof (induction s p arbitrary: r s1 rule: makedirs.induct)
  case (1 fs p)
  show ?case
  proof (cases "p \<noteq> [] \<and> \<not> exists fs (butlast p)")
    case True
    obtain r0 fs0 where m: "makedirs fs (butlast p) = (r0, fs0)"
      by (cases "makedirs fs (butlast p)") auto
    from "1.IH" [OF True m] have g0: "grows fs fs0" .
    from "1.prems" True m have "s1 = fs0 \<or> try_mkdir fs0 p = (r, s1)"
      by (subst (asm) makedirs.simps) (auto split: option.splits if_splits)
    then have "grows fs0 s1" using try_mkdir_grows grows_refl by blast
    with g0 show ?thesis by (rule grows_trans)
  next
    case False
    with "1.prems" have "try_mkdir fs p = (r, s1)"
      by (subst (asm) makedirs.simps) auto
    then show ?thesis by (rule try_mkdir_grows)
  qed
qed

lemma makedirs_None:
  assumes "makedirs s p = (None, s1)" and "last p \<noteq> ''.''"
  shows "is_dir s1 p"
proof (cases "p \<noteq> [] \<and> \<not> exists s (butlast p)")
  case True
  obtain r0 fs0 where m: "makedirs s (butlast p) = (r0, fs0)"
    by (cases "makedirs s (butlast p)") auto
  from assms True m have "try_mkdir fs0 p = (None, s1)"
    by (subst (asm) makedirs.simps) (auto split: option.splits if_splits)
  then show ?thesis by (rule try_mkdir_None)
next
  case False
  with assms have "try_mkdir s p = (None, s1)"
    by (subst (asm) makedirs.simps) auto
  then show ?thesis by (rule try_mkdir_None)
qed

lemma exists_root: "exists fs []"
  by (simp add: exists_def node_at_def)

lemma replayable_upperdirs:
  assumes "up = [] \<or> last up \<noteq> ''.''"
  shows "replayable (\<lambda>s. case (if \<not> exists s up then makedirs s up else (None, s)) of
                          (Some e, s1) \<Rightarrow> Inl e
                        | (None, s1) \<Rightarrow> Inr s1)"
proof (rule replayable_ensure [where Q = "\<lambda>s. exists s up"])
  fix s s1
  assume a: "(case (if \<not> exists s up then makedirs s up else (None, s)) of
                 (Some e, s1) \<Rightarrow> Inl e | (None, s1) \<Rightarrow> Inr s1) = Inr s1"
  show "grows s s1 \<and> exists s1 up"
  proof (cases "exists s up")
    case True
    with a show ?thesis by (simp add: grows_refl)
  next
    case False
    with a have m: "makedirs s up = (None, s1)"
      by (auto split: prod.splits option.splits)
    from False have "up \<noteq> []" using exists_root by auto
    with assms have "last up \<noteq> ''.''" by simp
    with m have "is_dir s1 up" by (rule makedirs_None)
    then have "exists s1 up" by (rule is_dir_exists)
    moreover from m have "grows s s1" by (rule makedirs_grows)
    ultimately show ?thesis by blast
  qed
next
  fix s t
  assume "exists s up" "kext s t"
  then show "exists t up" by (rule exists_kext)
next
  fix t
  assume "exists t up"
  then show "(case (if \<not> exists t up then makedirs t up else (None, t)) of
                 (Some e, s1) \<Rightarrow> Inl e | (None, s1) \<Rightarrow> Inr s1) = Inr t" by simp
qed

lemma replayable_member_dir:
  "replayable (\<lambda>s. if \<not> is_dir s p then os_mkdir s p else Inr s)"
proof (rule replayable_ensure [where Q = "\<lambda>s. is_dir s p"])
  fix s s1
  assume "(if \<not> is_dir s p then os_mkdir s p else Inr s) = Inr s1"
  then show "grows s s1 \<and> is_dir s1 p"
    by (auto simp: grows_refl split: if_splits dest: os_mkdir_Inr)
next
  fix s t
  assume "is_dir s p" "kext s t"
  then show "is_dir t p" by (rule is_dir_kext)
next
  fix t
  assume "is_dir t p"
  then show "(if \<not> is_dir t p then os_mkdir t p else Inr t) = Inr t" by simp
qed

lemma canonical_butlast_last:
  assumes "canonical p"
  shows "butlast p = [] \<or> last (butlast p) \<noteq> ''.''"
proof (cases "butlast p = []")
  case True
  then show ?thesis by simp
next
  case False
  then have "last (butlast p) \<in> set (butlast p)" by simp
  then have "last (butlast p) \<in> set p" by (rule in_set_butlastD)
  with assms show ?thesis by (auto simp: canonical_def)
qed

lemma canonical_target:
  "canonical output_dir \<Longrightarrow>
   canonical (output_dir @ filter (\<lambda>x. x \<noteq> [] \<and> x \<noteq> ''.'' \<and> x \<noteq> ''..'') xs)"
  by (auto simp: canonical_def)

lemma replayable_extract_member:
  assumes "canonical output_dir"
  shows "replayable (extract_member output_dir member)"
proof -
  let ?target = "output_dir @ filter (\<lambda>x. x \<noteq> [] \<and> x \<noteq> ''.'' \<and> x \<noteq> ''..'')
                      (split (filename member) CHR ''/'')"
  let ?up = "butlast ?target"
  let ?f = "\<lambda>s. case (if \<not> exists s ?up then makedirs s ?up else (None, s)) of
                          (Some e, s1) \<Rightarrow> Inl e
                        | (None, s1) \<Rightarrow> Inr s1"
  let ?g = "\<lambda>s. if info_is_dir member
                 then (if \<not> is_dir s ?target then os_mkdir s ?target else Inr s)
                 else write_bytes s ?target (file_data member)"
  have "canonical ?target" using assms by (rule canonical_target)
  then have "?up = [] \<or> last ?up \<noteq> ''.''" by (rule canonical_butlast_last)
  then have f: "replayable ?f" by (rule replayable_upperdirs)
  have g: "replayable ?g"
    by (cases "info_is_dir member") (simp_all add: replayable_member_dir replayable_write_bytes)
  have "extract_member output_dir member = (\<lambda>s. case ?f s of Inl e \<Rightarrow> Inl e | Inr s1 \<Rightarrow> ?g s1)"
    by (intro ext) (auto simp: extract_member_def Let_def split: prod.splits option.splits)
  then show ?thesis using replayable_bind [OF f g] by simp
qed

lemma replayable_extractall:
  assumes "canonical output_dir"
  shows "replayable (extractall output_dir members)"
proof (induction members)
  case Nil
  have "extractall output_dir [] = (\<lambda>s. Inr s)" by (intro ext) simp
  then show ?case by (simp add: replayable_skip)
next
  case (Cons member members)
  have "extractall output_dir (member # members) =
          (\<lambda>s. case extract_member output_dir member s of
                  Inl e \<Rightarrow> Inl e | Inr s1 \<Rightarrow> extractall output_dir members s1)"
    by (intro ext) simp
  then show ?case
    using replayable_bind [OF replayable_extract_member [OF assms] Cons.IH] by simp
qed

lemma replayable_extract_zip:
  assumes "canonical (resolve env output_dir)"
  shows "replayable (extract_zip env zip_bytes output_dir flatten_single_root)
         \<and> (\<forall>fs fs1. extract_zip env zip_bytes output_dir flatten_single_root fs = Inr fs1
               \<longrightarrow> is_dir fs1 (resolve env output_dir))"
proof -
  let ?out = "resolve env output_dir"
  let ?g = "\<lambda>fs1. case ZipFile env zip_bytes of
                 None \<Rightarrow> Inl BadZipFile
               | Some zf \<Rightarrow>
                   (let names = namelist zf;
                        single_root = (if flatten_single_root then single_root_dir names
                                       else None)
                    in (case single_root of
                          None \<Rightarrow> extractall ?out zf fs1
                        | Some root \<Rightarrow>
                            (if root \<noteq> [] then flatten_members zf ?out (root @ ''/'') zf fs1
                             else extractall ?out zf fs1)))"
  have g: "replayable ?g"
  proof (cases "ZipFile env zip_bytes")
    case None
    then show ?thesis by (simp add: replayable_fail)
  next
    case (Some zf)
    show ?thesis
    proof (cases "if flatten_single_root then single_root_dir (namelist zf) else None")
      case None
      with Some show ?thesis
        using replayable_extractall [OF assms, of zf] by (simp add: Let_def)
    next
      case (Some root)
      with \<open>ZipFile env zip_bytes = Some zf\<close> show ?thesis
        using replayable_extractall [OF assms, of zf]
          replayable_flatten_members [of zf ?out "root @ ''/''" zf]
        by (cases "root = []") (simp_all add: Let_def)
    qed
  qed
  have e: "extract_zip env zip_bytes output_dir flatten_single_root =
          (\<lambda>s. case path_mkdir s ?out True True of Inl e \<Rightarrow> Inl e | Inr s1 \<Rightarrow> ?g s1)"
    by (intro ext) (simp add: extract_zip_def Let_def)
  have a: "replayable (extract_zip env zip_bytes output_dir flatten_single_root)"
    unfolding e using replayable_path_mkdir g by (rule replayable_bind)
  have b: "\<forall>fs fs1. extract_zip env zip_bytes output_dir flatten_single_root fs = Inr fs1
               \<longrightarrow> is_dir fs1 ?out"
  proof (intro allI impI)
    fix fs fs1
    assume "extract_zip env zip_bytes output_dir flatten_single_root fs = Inr fs1"
    then obtain s1 where m: "path_mkdir fs ?out True True = Inr s1" and r: "?g s1 = Inr fs1"
      unfolding e by (auto split: sum.splits)
    from m have "is_dir s1 ?out" using path_mkdir_Inr by blast
    moreover from g r have "kext s1 fs1" by (rule replayable_kext)
    ultimately show "is_dir fs1 ?out" by (rule is_dir_kext)
  qed
  from a b show ?thesis by blast
qed

section \<open>The sample archive, extracted\<close>

lemma sample_resolve: "resolve (sample_env a b c d) ''/D'' = [''D'']"
  by (simp add: sample_env_def path_parts_def)

lemma sample_ZipFile: "ZipFile (sample_env a b c d) ''PK-sample'' = Some sample_archive"
  by (simp add: sample_env_def)

lemma sample_root: "single_root_dir (namelist sample_archive) = Some ''proj''"
  by (simp add: sample_archive_def namelist_def single_root_dir_def path_parts_def set_add_def
      startswith_def)

lemma mkdir_D: "path_mkdir Map.empty [''D''] True True = Inr [[''D''] \<mapsto> Dir]"
  by (simp add: path_mkdir.simps os_mkdir_def parent_dir_def node_at_def step_def)

lemmas fs_eval = path_mkdir.simps os_mkdir_def parent_dir_def node_at_def step_def
  write_bytes_def is_dir_def exists_def try_mkdir_def makedirs.simps read_bytes_def

lemmas zip_eval = flatten_member_def member_rel_def startswith_def rstrip_def info_is_dir_def
  path_join_def zf_read_def Let_def suffix_to_prefix extract_member_def

lemma sample_extract:
  "extract_zip (sample_env a b c d) ''PK-sample'' ''/D'' True Map.empty
     = Inr [[''D''] \<mapsto> Dir, [''D'', ''main.tex''] \<mapsto> File ''X'', [''D'', ''sub''] \<mapsto> Dir]"
proof -
  have "extract_zip (sample_env a b c d) ''PK-sample'' ''/D'' True Map.empty
     = flatten_members sample_archive [''D''] ''proj/'' sample_archive [[''D''] \<mapsto> Dir]"
    by (simp add: extract_zip_def sample_resolve sample_ZipFile sample_root mkdir_D Let_def)
  also have "\<dots> = Inr [[''D''] \<mapsto> Dir, [''D'', ''main.tex''] \<mapsto> File ''X'',
                      [''D'', ''sub''] \<mapsto> Dir]"
    by (simp add: sample_archive_def fs_eval zip_eval)
  finally show ?thesis .
qed

lemma sample_extract_verbatim:
  "extract_zip (sample_env a b c d) ''PK-sample'' ''/D'' False Map.empty
     = Inr [[''D''] \<mapsto> Dir, [''D'', ''proj''] \<mapsto> Dir,
            [''D'', ''proj'', ''main.tex''] \<mapsto> File ''X'', [''D'', ''proj'', ''sub''] \<mapsto> Dir]"
  by (simp add: extract_zip_def sample_resolve sample_ZipFile namelist_def
      sample_archive_def fs_eval zip_eval)

section \<open>An archive that is only a directory marker\<close>

text \<open>
  Claim C1. The claim asks for an entry path strictly longer than the root followed by
  a slash, as the comment in \<^verbatim>\<open>_single_root_dir\<close> does (\<^verbatim>\<open>Must have at least one path like
  "single/file" (content under that dir)\<close>). The code tests \<^verbatim>\<open>n.startswith(single + "/")\<close>,
  which the directory marker of the root satisfies by itself. For the archive whose only
  member is \<^verbatim>\<open>proj/\<close> no path is longer than \<^verbatim>\<open>proj/\<close>, and \<^verbatim>\<open>proj\<close> is detected as the root all
  the same. The flattening extraction then skips the only member and leaves the
  destination empty; the extraction without flattening makes the directory \<^verbatim>\<open>proj\<close> in it.
\<close>

theorem single_root_dir_marker_only:
  "single_root_dir [''proj/''] = Some ''proj''
   \<and> \<not> length (''proj'' @ ''/'') < length ''proj/''
   \<and> namelist marker_archive = [''proj/'']
   \<and> extract_zip (sample_env 200 sample_page 200 ''PK-marker'') ''PK-marker'' ''/D'' True
         Map.empty = Inr [[''D''] \<mapsto> Dir]
   \<and> extract_zip (sample_env 200 sample_page 200 ''PK-marker'') ''PK-marker'' ''/D'' False
         Map.empty = Inr [[''D''] \<mapsto> Dir, [''D'', ''proj''] \<mapsto> Dir]"
proof -
  let ?env = "sample_env 200 sample_page 200 ''PK-marker''"
  have r: "single_root_dir [''proj/''] = Some ''proj''"
    by (simp add: single_root_dir_def path_parts_def set_add_def startswith_def)
  have n: "namelist marker_archive = [''proj/'']"
    by (simp add: marker_archive_def namelist_def)
  have z: "ZipFile ?env ''PK-marker'' = Some marker_archive"
    by (simp add: sample_env_def)
  have "extract_zip ?env ''PK-marker'' ''/D'' True Map.empty
          = flatten_members marker_archive [''D''] ''proj/'' marker_archive [[''D''] \<mapsto> Dir]"
    by (simp add: extract_zip_def sample_resolve z n r mkdir_D Let_def)
  also have "\<dots> = Inr [[''D''] \<mapsto> Dir]"
    by (simp add: marker_archive_def fs_eval zip_eval)
  finally have f: "extract_zip ?env ''PK-marker'' ''/D'' True Map.empty = Inr [[''D''] \<mapsto> Dir]" .
  have "extract_zip ?env ''PK-marker'' ''/D'' False Map.empty
          = extractall [''D''] marker_archive [[''D''] \<mapsto> Dir]"
    by (simp add: extract_zip_def sample_resolve z mkdir_D Let_def)
  also have "\<dots> = Inr [[''D''] \<mapsto> Dir, [''D'', ''proj''] \<mapsto> Dir]"
    by (simp add: marker_archive_def fs_eval zip_eval)
  finally have v: "extract_zip ?env ''PK-marker'' ''/D'' False Map.empty
          = Inr [[''D''] \<mapsto> Dir, [''D'', ''proj''] \<mapsto> Dir]" .
  from r n f v show ?thesis by simp
qed

section \<open>Canonical paths, and what a member leaves behind\<close>

lemma step_plain: "c \<noteq> [] \<Longrightarrow> c \<noteq> ''.'' \<Longrightarrow> c \<noteq> ''..'' \<Longrightarrow> step cur c = cur @ [c]"
  by (simp add: step_def)

lemma walk_canonical: "canonical p \<Longrightarrow> walk fs cur p = Inr d \<Longrightarrow> d = cur @ p"
proof (induction p arbitrary: cur)
  case Nil
  then show ?case by simp
next
  case (Cons c cs)
  from Cons.prems(1) have c: "step cur c = cur @ [c]" and cs: "canonical cs"
    by (auto simp: canonical_def step_plain)
  from Cons.prems(2) have "walk fs (step cur c) cs = Inr d"
    by (auto split: option.splits node.splits)
  with Cons.IH [OF cs] c show ?case by fastforce
qed

lemma canonical_butlast: "canonical p \<Longrightarrow> canonical (butlast p)"
  by (auto simp: canonical_def dest: in_set_butlastD)

lemma canonical_snoc:
  "canonical p \<Longrightarrow> c \<noteq> [] \<Longrightarrow> c \<noteq> ''.'' \<Longrightarrow> c \<noteq> ''..'' \<Longrightarrow> canonical (p @ [c])"
  by (auto simp: canonical_def)

lemma parent_dir_canonical:
  assumes "canonical p" and "parent_dir s p = Inr d"
  shows "d = butlast p"
proof -
  from assms(2) have "walk s [] (butlast p) = Inr d"
    by (auto simp: parent_dir_def split: sum.splits option.splits node.splits)
  with walk_canonical [OF canonical_butlast [OF assms(1)]] show ?thesis by fastforce
qed

lemma target_canonical:
  assumes "canonical p" and "p \<noteq> []" and "parent_dir s p = Inr d"
  shows "step d (last p) = p"
proof -
  from assms(1,3) have d: "d = butlast p" by (rule parent_dir_canonical)
  from assms(1,2) have "last p \<noteq> [] \<and> last p \<noteq> ''.'' \<and> last p \<noteq> ''..''"
    by (auto simp: canonical_def)
  then have "step d (last p) = d @ [last p]" by (simp add: step_plain)
  with d assms(2) show ?thesis by simp
qed

lemma is_dir_canonical: "canonical p \<Longrightarrow> is_dir s p \<Longrightarrow> node_at s p = Some Dir"
  unfolding is_dir_iff using walk_canonical by fastforce

lemma os_mkdir_canonical:
  assumes "canonical p" and "os_mkdir s p = Inr s'"
  shows "s' = s(p \<mapsto> Dir)"
proof -
  from assms(2) have ne: "p \<noteq> []" by (auto simp: os_mkdir_def split: if_splits)
  from assms(2) ne obtain d where d: "parent_dir s p = Inr d"
    and s': "s' = s(step d (last p) \<mapsto> Dir)"
    by (auto simp: os_mkdir_def Let_def split: sum.splits if_splits)
  from target_canonical [OF assms(1) ne d] s' show ?thesis by simp
qed

lemma path_mkdir_footprint:
  "path_mkdir s p parents exist_ok = Inr s' \<Longrightarrow> canonical p \<Longrightarrow> s' q \<noteq> s q \<Longrightarrow> prefix q p"
proof (induction s p parents exist_ok arbitrary: s' rule: path_mkdir.induct)
  case (1 fs p parents exist_ok)
  show ?case
  proof (cases "os_mkdir fs p")
    case (Inr fs')
    with "1.prems"(1) have "s' = fs'" by (subst (asm) path_mkdir.simps) simp
    with Inr "1.prems"(2) have "s' = fs(p \<mapsto> Dir)" using os_mkdir_canonical by blast
    with "1.prems"(3) have "q = p" by (auto split: if_splits)
    then show ?thesis by simp
  next
    case (Inl e)
    show ?thesis
    proof (cases "e = FileNotFoundError")
      case True
      with "1.prems"(1) Inl have pp: "parents" "p \<noteq> []"
        by (subst (asm) path_mkdir.simps; auto split: if_splits)+
      from "1.prems"(1) Inl True pp obtain fs1 where
        a: "path_mkdir fs (butlast p) True True = Inr fs1"
        and b: "path_mkdir fs1 p False exist_ok = Inr s'"
        by (subst (asm) path_mkdir.simps) (auto split: sum.splits)
      have cb: "canonical (butlast p)" using "1.prems"(2) by (rule canonical_butlast)
      from "1.prems"(3) have "fs1 q \<noteq> fs q \<or> s' q \<noteq> fs1 q" by auto
      then show ?thesis
      proof
        assume "fs1 q \<noteq> fs q"
        with "1.IH"(1) [OF Inl True _ a cb] pp have "prefix q (butlast p)" by simp
        then show ?thesis by (metis prefix_order.trans prefixeq_butlast)
      next
        assume "s' q \<noteq> fs1 q"
        with "1.IH"(2) [OF Inl True _ a b "1.prems"(2)] pp show ?thesis by simp
      qed
    next
      case False
      with "1.prems"(1) Inl have "s' = fs"
        by (subst (asm) path_mkdir.simps; auto split: if_splits)+
      with "1.prems"(3) show ?thesis by simp
    qed
  qed
qed

lemma write_bytes_canonical:
  assumes "canonical p" and "write_bytes s p bs = Inr s'"
  shows "s' = s(p \<mapsto> File bs)"
proof -
  from write_bytes_Inr [OF assms(2)] obtain d where ne: "p \<noteq> []"
    and d: "parent_dir s p = Inr d" and s': "s' = s(step d (last p) \<mapsto> File bs)" by blast
  from target_canonical [OF assms(1) ne d] s' show ?thesis by simp
qed

lemma write_bytes_read:
  assumes "write_bytes s p bs = Inr s'"
  shows "read_bytes s' p = Some bs"
proof -
  from write_bytes_Inr [OF assms] obtain d where ne: "p \<noteq> []"
    and d: "parent_dir s p = Inr d" and tn: "step d (last p) \<noteq> []"
    and s': "s' = s(step d (last p) \<mapsto> File bs)" by blast
  have "kext s s'" using replayable_write_bytes assms by (rule replayable_kext)
  with d have "parent_dir s' p = Inr d" by (rule parent_dir_kext)
  then have "walk s' [] p = Inr (step d (last p))"
    using walk_parent_dir [OF ne, of s'] by simp
  moreover have "node_at s' (step d (last p)) = Some (File bs)"
    using tn by (simp add: node_at_def s')
  ultimately show ?thesis by (simp add: read_bytes_def)
qed

lemma read_bytes_kext:
  assumes "read_bytes s p = Some bs" and "kext s t"
  shows "\<exists>bs'. read_bytes t p = Some bs'"
proof -
  from assms(1) obtain d where w: "walk s [] p = Inr d" and n: "node_at s d = Some (File bs)"
    by (auto simp: read_bytes_def split: sum.splits option.splits node.splits)
  from w assms(2) have "walk t [] p = Inr d" by (rule walk_kext)
  moreover from node_at_kext_File [OF assms(2) n] obtain bs' where "node_at t d = Some (File bs')"
    by blast
  ultimately show ?thesis by (simp add: read_bytes_def)
qed

lemma flatten_member_skip:
  "\<not> startswith (filename info) pfx \<or> member_rel pfx info = []
   \<Longrightarrow> flatten_member zf output_dir pfx info fs = Inr fs"
  by (auto simp: flatten_member_def Let_def)

lemma flatten_member_written:
  assumes "startswith (filename info) pfx"
    and "member_rel pfx info \<noteq> []"
    and "flatten_member zf output_dir pfx info fs = Inr fs'"
  shows "if info_is_dir info
         then is_dir fs' (path_join output_dir (member_rel pfx info))
         else (\<exists>bs. zf_read zf (filename info) = Inr bs
                 \<and> read_bytes fs' (path_join output_dir (member_rel pfx info)) = Some bs)"
proof (cases "info_is_dir info")
  case True
  with assms have "path_mkdir fs (path_join output_dir (member_rel pfx info)) True True = Inr fs'"
    by (simp add: flatten_member_def Let_def)
  with True show ?thesis using path_mkdir_Inr by simp
next
  case False
  with assms obtain fs1 bs where "zf_read zf (filename info) = Inr bs"
    and "write_bytes fs1 (path_join output_dir (member_rel pfx info)) bs = Inr fs'"
    by (auto simp: flatten_member_def Let_def split: sum.splits)
  with False show ?thesis using write_bytes_read by simp
qed

lemma flatten_members_kept:
  assumes "flatten_members zf output_dir pfx infos fs = Inr fs'"
    and "info \<in> set infos"
    and "startswith (filename info) pfx"
    and "member_rel pfx info \<noteq> []"
  shows "if info_is_dir info
         then is_dir fs' (path_join output_dir (member_rel pfx info))
         else (\<exists>bs. read_bytes fs' (path_join output_dir (member_rel pfx info)) = Some bs)"
  using assms(1,2)
proof (induction infos arbitrary: fs)
  case Nil
  then show ?case by simp
next
  case (Cons i infos)
  from Cons.prems(1) obtain fs1 where
    a: "flatten_member zf output_dir pfx i fs = Inr fs1"
    and b: "flatten_members zf output_dir pfx infos fs1 = Inr fs'"
    by (auto split: sum.splits)
  show ?case
  proof (cases "info = i")
    case True
    have k: "kext fs1 fs'" using replayable_flatten_members b by (rule replayable_kext)
    from a True have "flatten_member zf output_dir pfx info fs = Inr fs1" by simp
    from flatten_member_written [OF assms(3,4) this]
    have "if info_is_dir info
         then is_dir fs1 (path_join output_dir (member_rel pfx info))
         else (\<exists>bs. zf_read zf (filename info) = Inr bs
                 \<and> read_bytes fs1 (path_join output_dir (member_rel pfx info)) = Some bs)" .
    then show ?thesis
      using k is_dir_kext read_bytes_kext by (auto split: if_splits)
  next
    case False
    with Cons.prems(2) have "info \<in> set infos" by simp
    from Cons.IH [OF b this] show ?thesis .
  qed
qed

section \<open>Extraction twice\<close>

text \<open>
  Claim C7. When \<open>extract_zip\<close> has succeeded for an archive and a destination (resolved to
  a canonical path, as \<^verbatim>\<open>Path.resolve\<close> does), running it again with the same archive and
  destination on the file system it left succeeds as well and leaves exactly that file
  system: files are overwritten with the same bytes, directories that exist are accepted.
  The destination is a directory afterwards, whether or not it or its parents were there
  before. This holds with and without flattening.
\<close>

theorem extract_zip_idempotent:
  assumes "canonical (resolve env output_dir)"
    and "extract_zip env zip_bytes output_dir flatten_single_root fs = Inr fs1"
  shows "extract_zip env zip_bytes output_dir flatten_single_root fs1 = Inr fs1
         \<and> is_dir fs1 (resolve env output_dir)"
proof -
  from replayable_extract_zip [OF assms(1), of zip_bytes flatten_single_root]
  have r: "replayable (extract_zip env zip_bytes output_dir flatten_single_root)"
    and d: "is_dir fs1 (resolve env output_dir)"
    using assms(2) by blast+
  from r assms(2) have "extract_zip env zip_bytes output_dir flatten_single_root fs1 = Inr fs1"
    by (rule replayable_idem)
  with d show ?thesis by blast
qed

theorem extract_zip_idempotent_witness:
  "canonical (resolve (sample_env 200 sample_page 200 ''PK-sample'') ''/D'')
   \<and> extract_zip (sample_env 200 sample_page 200 ''PK-sample'') ''PK-sample'' ''/D'' True Map.empty
       = Inr [[''D''] \<mapsto> Dir, [''D'', ''main.tex''] \<mapsto> File ''X'', [''D'', ''sub''] \<mapsto> Dir]
   \<and> extract_zip (sample_env 200 sample_page 200 ''PK-sample'') ''PK-sample'' ''/D'' True
         [[''D''] \<mapsto> Dir, [''D'', ''main.tex''] \<mapsto> File ''X'', [''D'', ''sub''] \<mapsto> Dir]
       = Inr [[''D''] \<mapsto> Dir, [''D'', ''main.tex''] \<mapsto> File ''X'', [''D'', ''sub''] \<mapsto> Dir]"
proof -
  let ?env = "sample_env 200 sample_page 200 ''PK-sample''"
  have c: "canonical (resolve ?env ''/D'')"
    by (simp add: sample_resolve canonical_def)
  have e: "extract_zip ?env ''PK-sample'' ''/D'' True Map.empty
       = Inr [[''D''] \<mapsto> Dir, [''D'', ''main.tex''] \<mapsto> File ''X'', [''D'', ''sub''] \<mapsto> Dir]"
    by (rule sample_extract)
  from c e extract_zip_idempotent [OF c e] show ?thesis by blast
qed

section \<open>Flattened extraction\<close>

lemma split_not_Nil: "split s sep \<noteq> []"
  by (induction s) (auto split: list.splits)

lemma split_no_sep: "w \<in> set (split s sep) \<Longrightarrow> sep \<notin> set w"
proof (induction s arbitrary: w)
  case Nil
  then show ?case by simp
next
  case (Cons c cs)
  show ?case
  proof (cases "c = sep")
    case True
    with Cons show ?thesis by auto
  next
    case False
    obtain v vs where sp: "split cs sep = v # vs"
      using split_not_Nil [of cs sep] by (cases "split cs sep") auto
    with False Cons.prems have "w = c # v \<or> w \<in> set vs" by simp
    then show ?thesis
    proof
      assume "w = c # v"
      moreover have "sep \<notin> set v" using Cons.IH [of v] sp by simp
      ultimately show ?thesis using False by simp
    next
      assume "w \<in> set vs"
      then show ?thesis using Cons.IH [of w] sp by simp
    qed
  qed
qed

lemma split_append_sep: "sep \<notin> set a \<Longrightarrow> split (a @ sep # b) sep = a # split b sep"
  by (induction a) auto

lemma path_parts_elems: "w \<in> set (path_parts n) \<Longrightarrow> w \<noteq> [] \<and> CHR ''/'' \<notin> set w"
  using split_no_sep by (auto simp: path_parts_def)

lemma single_root_dir_plain:
  assumes "single_root_dir names = Some r"
  shows "r \<noteq> [] \<and> CHR ''/'' \<notin> set r"
proof -
  from assms have "r \<in> {hd (path_parts n) | n. n \<in> set names \<and> path_parts n \<noteq> []}"
    using single_root_dir_Some_iff [of names r] by simp
  then obtain n where "r = hd (path_parts n)" "path_parts n \<noteq> []" by blast
  then have "r \<in> set (path_parts n)" by simp
  then show ?thesis by (rule path_parts_elems)
qed

lemma extract_zip_flattened:
  assumes "ZipFile env zip_bytes = Some zf" and "single_root_dir (namelist zf) = Some root"
  shows "extract_zip env zip_bytes output_dir True fs =
           (case path_mkdir fs (resolve env output_dir) True True of
              Inl e \<Rightarrow> Inl e
            | Inr fs1 \<Rightarrow> flatten_members zf (resolve env output_dir) (root @ ''/'') zf fs1)"
  using assms single_root_dir_plain [OF assms(2)]
  by (simp add: extract_zip_def Let_def split: sum.splits)

lemma extract_zip_kept:
  assumes "ZipFile env zip_bytes = Some zf" and "single_root_dir (namelist zf) = Some root"
    and "extract_zip env zip_bytes output_dir True fs = Inr fs'"
    and "info \<in> set zf" and "startswith (filename info) (root @ ''/'')"
    and "member_rel (root @ ''/'') info \<noteq> []"
  shows "if info_is_dir info
         then is_dir fs' (path_join (resolve env output_dir) (member_rel (root @ ''/'') info))
         else (\<exists>bs. read_bytes fs'
                 (path_join (resolve env output_dir) (member_rel (root @ ''/'') info)) = Some bs)"
proof -
  from assms(3) obtain fs1 where
    "flatten_members zf (resolve env output_dir) (root @ ''/'') zf fs1 = Inr fs'"
    unfolding extract_zip_flattened [OF assms(1,2)] by (auto split: sum.splits)
  from flatten_members_kept [OF this assms(4,5,6)] show ?thesis .
qed

lemma path_join_name:
  assumes "n \<noteq> []" "n \<noteq> ''.''" "CHR ''/'' \<notin> set n"
  shows "path_join out n = out @ [n]"
proof -
  have "split (n @ []) CHR ''/'' = [n]"
    using assms(3) by (induction n) auto
  then have "split n CHR ''/'' = [n]" by simp
  moreover from assms(1,3) have "\<not> startswith n ''/''"
    by (cases n) (auto simp: startswith_def)
  ultimately show ?thesis using assms(1,2) by (simp add: path_join_def)
qed

lemma grows_keeps: "grows s t \<Longrightarrow> s p = Some n \<Longrightarrow> t p = Some n"
  unfolding grows_def by (metis option.distinct(1))

lemma sample_archive_extracted:
  assumes z: "ZipFile env zip_bytes = Some sample_archive"
    and c: "canonical (resolve env output_dir)"
    and e: "extract_zip env zip_bytes output_dir True fs = Inr fs'"
  shows "fs' (resolve env output_dir @ [''main.tex'']) = Some (File ''X'')
         \<and> fs' (resolve env output_dir @ [''sub'']) = Some Dir
         \<and> (\<forall>q. fs' q \<noteq> fs q \<longrightarrow>
               prefix q (resolve env output_dir) \<or> q = resolve env output_dir @ [''main.tex'']
               \<or> q = resolve env output_dir @ [''sub''])"
proof -
  let ?out = "resolve env output_dir"
  have j1: "path_join ?out ''main.tex'' = ?out @ [''main.tex'']"
    by (rule path_join_name) simp_all
  have j2: "path_join ?out ''sub'' = ?out @ [''sub'']"
    by (rule path_join_name) simp_all
  have r1: "member_rel ''proj/'' \<lparr>filename = ''proj/main.tex'', file_data = ''X''\<rparr> = ''main.tex''"
    by (simp add: member_rel_def rstrip_def)
  have r2: "member_rel ''proj/'' \<lparr>filename = ''proj/sub/'', file_data = []\<rparr> = ''sub''"
    by (simp add: member_rel_def rstrip_def)
  from e obtain fs1 where m0: "path_mkdir fs ?out True True = Inr fs1"
    and fl: "flatten_members sample_archive ?out ''proj/'' sample_archive fs1 = Inr fs'"
    unfolding extract_zip_flattened [OF z sample_root] by (auto split: sum.splits)
  from fl obtain fs2 where
    f1: "flatten_member sample_archive ?out ''proj/''
           \<lparr>filename = ''proj/main.tex'', file_data = ''X''\<rparr> fs1 = Inr fs2"
    and f2: "flatten_member sample_archive ?out ''proj/''
           \<lparr>filename = ''proj/sub/'', file_data = []\<rparr> fs2 = Inr fs'"
    by (auto simp: sample_archive_def split: sum.splits)
  from f1 obtain fs1a where m1: "path_mkdir fs1 ?out True True = Inr fs1a"
    and w: "write_bytes fs1a (?out @ [''main.tex'']) ''X'' = Inr fs2"
    by (auto simp: flatten_member_def r1 j1 startswith_def info_is_dir_def suffix_to_prefix
        zf_read_def sample_archive_def Let_def split: sum.splits)
  from f2 have m2: "path_mkdir fs2 (?out @ [''sub'']) True True = Inr fs'"
    by (auto simp: flatten_member_def r2 j2 startswith_def info_is_dir_def suffix_to_prefix
        Let_def split: sum.splits)
  have c1: "canonical (?out @ [''main.tex''])" using c by (rule canonical_snoc) simp_all
  have c2: "canonical (?out @ [''sub''])" using c by (rule canonical_snoc) simp_all
  from write_bytes_canonical [OF c1 w] have fs2: "fs2 = fs1a(?out @ [''main.tex''] \<mapsto> File ''X'')" .
  from path_mkdir_Inr [OF m2] have g2: "grows fs2 fs'" and d2: "is_dir fs' (?out @ [''sub''])"
    by auto
  have a: "fs' (?out @ [''main.tex'']) = Some (File ''X'')"
    using grows_keeps [OF g2, of "?out @ [''main.tex'']"] fs2 by simp
  have b: "fs' (?out @ [''sub'']) = Some Dir"
    using is_dir_canonical [OF c2 d2] by (simp add: node_at_def)
  have fr: "\<forall>q. fs' q \<noteq> fs q \<longrightarrow>
               prefix q ?out \<or> q = ?out @ [''main.tex''] \<or> q = ?out @ [''sub'']"
  proof (intro allI impI)
    fix q
    assume "fs' q \<noteq> fs q"
    then have "fs1 q \<noteq> fs q \<or> fs1a q \<noteq> fs1 q \<or> fs2 q \<noteq> fs1a q \<or> fs' q \<noteq> fs2 q" by auto
    moreover have "fs1 q \<noteq> fs q \<Longrightarrow> prefix q ?out"
      using path_mkdir_footprint [OF m0 c] by blast
    moreover have "fs1a q \<noteq> fs1 q \<Longrightarrow> prefix q ?out"
      using path_mkdir_footprint [OF m1 c] by blast
    moreover have "fs2 q \<noteq> fs1a q \<Longrightarrow> q = ?out @ [''main.tex'']"
      unfolding fs2 by (auto split: if_splits)
    moreover have "fs' q \<noteq> fs2 q \<Longrightarrow> prefix q ?out \<or> q = ?out @ [''sub'']"
      using path_mkdir_footprint [OF m2 c2, of q] by (auto simp: prefix_snoc)
    ultimately show "prefix q ?out \<or> q = ?out @ [''main.tex''] \<or> q = ?out @ [''sub'']"
      by blast
  qed
  from a b fr show ?thesis by blast
qed

lemma parent_dir_child:
  assumes "canonical out" and "is_dir fs out"
  shows "parent_dir fs (out @ [c]) = Inr out"
proof -
  from assms(2) obtain d where w: "walk fs [] out = Inr d" and n: "node_at fs d = Some Dir"
    unfolding is_dir_iff by blast
  from walk_canonical [OF assms(1) w] have "d = out" by simp
  with w n show ?thesis by (simp add: parent_dir_def)
qed

lemma sample_archive_extractable:
  assumes z: "ZipFile env zip_bytes = Some sample_archive"
    and c: "canonical (resolve env output_dir)"
    and d: "is_dir fs (resolve env output_dir)"
    and f: "fs (resolve env output_dir @ [''main.tex'']) \<noteq> Some Dir"
    and s: "\<forall>bs. fs (resolve env output_dir @ [''sub'']) \<noteq> Some (File bs)"
  shows "\<exists>fs'. extract_zip env zip_bytes output_dir True fs = Inr fs'"
proof -
  let ?out = "resolve env output_dir"
  let ?fs2 = "fs(?out @ [''main.tex''] \<mapsto> File ''X'')"
  have j1: "path_join ?out ''main.tex'' = ?out @ [''main.tex'']"
    by (rule path_join_name) simp_all
  have j2: "path_join ?out ''sub'' = ?out @ [''sub'']"
    by (rule path_join_name) simp_all
  have r1: "member_rel ''proj/'' \<lparr>filename = ''proj/main.tex'', file_data = ''X''\<rparr> = ''main.tex''"
    by (simp add: member_rel_def rstrip_def)
  have r2: "member_rel ''proj/'' \<lparr>filename = ''proj/sub/'', file_data = []\<rparr> = ''sub''"
    by (simp add: member_rel_def rstrip_def)
  have m0: "path_mkdir fs ?out True True = Inr fs" using d by (rule path_mkdir_existing)
  have p1: "parent_dir fs (?out @ [''main.tex'']) = Inr ?out" using c d by (rule parent_dir_child)
  have s1: "step ?out ''main.tex'' = ?out @ [''main.tex'']" by (simp add: step_def)
  have w: "write_bytes fs (?out @ [''main.tex'']) ''X'' = Inr ?fs2"
    using f by (simp add: write_bytes_def p1 s1 node_at_def)
  have f1: "flatten_member sample_archive ?out ''proj/''
           \<lparr>filename = ''proj/main.tex'', file_data = ''X''\<rparr> fs = Inr ?fs2"
    by (simp add: flatten_member_def r1 j1 startswith_def info_is_dir_def suffix_to_prefix
        zf_read_def sample_archive_def m0 w)
  have k: "kext fs ?fs2" using replayable_write_bytes w by (rule replayable_kext)
  have d2: "is_dir ?fs2 ?out" using d k by (rule is_dir_kext)
  have p2: "parent_dir ?fs2 (?out @ [''sub'']) = Inr ?out" using c d2 by (rule parent_dir_child)
  have s2: "step ?out ''sub'' = ?out @ [''sub'']" by (simp add: step_def)
  have "\<exists>fs'. path_mkdir ?fs2 (?out @ [''sub'']) True True = Inr fs'"
  proof (cases "fs (?out @ [''sub''])")
    case None
    then have "os_mkdir ?fs2 (?out @ [''sub'']) = Inr (?fs2(?out @ [''sub''] \<mapsto> Dir))"
      by (simp add: os_mkdir_def p2 s2 node_at_def)
    then show ?thesis by (subst path_mkdir.simps) simp
  next
    case (Some n)
    with s have n: "fs (?out @ [''sub'']) = Some Dir" by (cases n) auto
    have "walk ?fs2 [] (?out @ [''sub'']) = Inr (?out @ [''sub''])"
      using walk_parent_dir [of "?out @ [''sub'']" ?fs2] by (simp add: p2 s2)
    then have "is_dir ?fs2 (?out @ [''sub''])"
      using n by (simp add: is_dir_def node_at_def)
    then show ?thesis using path_mkdir_existing by blast
  qed
  then obtain fs' where m2: "path_mkdir ?fs2 (?out @ [''sub'']) True True = Inr fs'" by blast
  have f2: "flatten_member sample_archive ?out ''proj/''
           \<lparr>filename = ''proj/sub/'', file_data = []\<rparr> ?fs2 = Inr fs'"
    by (simp add: flatten_member_def r2 j2 startswith_def info_is_dir_def suffix_to_prefix m2)
  have "flatten_members sample_archive ?out ''proj/'' sample_archive fs = Inr fs'"
    using f1 f2 by (simp add: sample_archive_def)
  then have "extract_zip env zip_bytes output_dir True fs = Inr fs'"
    unfolding extract_zip_flattened [OF z sample_root] by (simp add: m0)
  then show ?thesis by blast
qed

text \<open>
  Claim C3. For the archive with the file \<^verbatim>\<open>proj/main.tex\<close> (content \<^verbatim>\<open>X\<close>) and the directory
  \<^verbatim>\<open>proj/sub/\<close>, the flattening extraction into a destination \<open>D\<close> succeeds when \<open>D\<close> is a
  directory with no directory at \<open>D/main.tex\<close> and no regular file at \<open>D/sub\<close>; and
  whenever it succeeds it leaves the file \<open>D/main.tex\<close> with content \<^verbatim>\<open>X\<close> and the directory
  \<open>D/sub\<close>, and changes nothing at \<open>D/proj\<close> or below it. In general, after a flattening extraction that succeeded, every
  member whose name starts with the root and a slash, and whose remainder without
  trailing slashes is not empty, is there at the destination joined with that remainder:
  a directory for a directory member, a regular file otherwise. Right after the step of
  the loop for a file member the file holds the bytes \<^verbatim>\<open>zf.read\<close> gives for its name. A
  member whose name does not start with the prefix, or whose remainder is empty, is
  skipped: its step leaves the file system as it is.
\<close>

theorem flattened_extraction_strips_root:
  "(ZipFile env zip_bytes = Some sample_archive \<and> canonical (resolve env output_dir)
      \<and> is_dir fs (resolve env output_dir)
      \<and> fs (resolve env output_dir @ [''main.tex'']) \<noteq> Some Dir
      \<and> (\<forall>bs. fs (resolve env output_dir @ [''sub'']) \<noteq> Some (File bs))
     \<longrightarrow> (\<exists>fs1. extract_zip env zip_bytes output_dir True fs = Inr fs1))
   \<and> (ZipFile env zip_bytes = Some sample_archive \<and> canonical (resolve env output_dir)
      \<and> extract_zip env zip_bytes output_dir True fs = Inr fs'
     \<longrightarrow> fs' (resolve env output_dir @ [''main.tex'']) = Some (File ''X'')
         \<and> fs' (resolve env output_dir @ [''sub'']) = Some Dir
         \<and> (\<forall>q. prefix (resolve env output_dir @ [''proj'']) q \<longrightarrow> fs' q = fs q))
   \<and> (\<forall>zf root info.
         ZipFile env zip_bytes = Some zf \<and> single_root_dir (namelist zf) = Some root
         \<and> extract_zip env zip_bytes output_dir True fs = Inr fs'
         \<and> info \<in> set zf \<and> startswith (filename info) (root @ ''/'')
         \<and> member_rel (root @ ''/'') info \<noteq> []
       \<longrightarrow> (if info_is_dir info
            then is_dir fs' (path_join (resolve env output_dir) (member_rel (root @ ''/'') info))
            else (\<exists>bs. read_bytes fs'
                    (path_join (resolve env output_dir) (member_rel (root @ ''/'') info))
                    = Some bs)))
   \<and> (\<forall>zf out pfx info s s'.
         startswith (filename info) pfx \<and> member_rel pfx info \<noteq> []
         \<and> flatten_member zf out pfx info s = Inr s'
       \<longrightarrow> (if info_is_dir info then is_dir s' (path_join out (member_rel pfx info))
            else (\<exists>bs. zf_read zf (filename info) = Inr bs
                    \<and> read_bytes s' (path_join out (member_rel pfx info)) = Some bs)))
   \<and> (\<forall>zf out pfx info s.
         \<not> startswith (filename info) pfx \<or> member_rel pfx info = []
       \<longrightarrow> flatten_member zf out pfx info s = Inr s)"
proof (intro conjI)
  show "ZipFile env zip_bytes = Some sample_archive \<and> canonical (resolve env output_dir)
      \<and> is_dir fs (resolve env output_dir)
      \<and> fs (resolve env output_dir @ [''main.tex'']) \<noteq> Some Dir
      \<and> (\<forall>bs. fs (resolve env output_dir @ [''sub'']) \<noteq> Some (File bs))
     \<longrightarrow> (\<exists>fs1. extract_zip env zip_bytes output_dir True fs = Inr fs1)"
    using sample_archive_extractable [of env zip_bytes output_dir fs] by blast
next
  show "ZipFile env zip_bytes = Some sample_archive \<and> canonical (resolve env output_dir)
      \<and> extract_zip env zip_bytes output_dir True fs = Inr fs'
     \<longrightarrow> fs' (resolve env output_dir @ [''main.tex'']) = Some (File ''X'')
         \<and> fs' (resolve env output_dir @ [''sub'']) = Some Dir
         \<and> (\<forall>q. prefix (resolve env output_dir @ [''proj'']) q \<longrightarrow> fs' q = fs q)"
  proof
    assume h: "ZipFile env zip_bytes = Some sample_archive \<and> canonical (resolve env output_dir)
      \<and> extract_zip env zip_bytes output_dir True fs = Inr fs'"
    let ?out = "resolve env output_dir"
    from h sample_archive_extracted [of env zip_bytes output_dir fs fs']
    have a: "fs' (?out @ [''main.tex'']) = Some (File ''X'')"
      and b: "fs' (?out @ [''sub'']) = Some Dir"
      and fr: "\<And>q. fs' q \<noteq> fs q \<Longrightarrow>
               prefix q ?out \<or> q = ?out @ [''main.tex''] \<or> q = ?out @ [''sub'']"
      by blast+
    have "\<forall>q. prefix (?out @ [''proj'']) q \<longrightarrow> fs' q = fs q"
    proof (intro allI impI, rule ccontr)
      fix q
      assume p: "prefix (?out @ [''proj'']) q" and "fs' q \<noteq> fs q"
      from fr [OF this(2)] show False
      proof (elim disjE)
        assume "prefix q ?out"
        with p have "prefix (?out @ [''proj'']) ?out" by (rule prefix_order.trans)
        then show False by (auto dest: prefix_length_le)
      next
        assume "q = ?out @ [''main.tex'']"
        with p show False by simp
      next
        assume "q = ?out @ [''sub'']"
        with p show False by simp
      qed
    qed
    with a b show "fs' (?out @ [''main.tex'']) = Some (File ''X'')
         \<and> fs' (?out @ [''sub'']) = Some Dir
         \<and> (\<forall>q. prefix (?out @ [''proj'']) q \<longrightarrow> fs' q = fs q)" by blast
  qed
next
  show "\<forall>zf root info.
         ZipFile env zip_bytes = Some zf \<and> single_root_dir (namelist zf) = Some root
         \<and> extract_zip env zip_bytes output_dir True fs = Inr fs'
         \<and> info \<in> set zf \<and> startswith (filename info) (root @ ''/'')
         \<and> member_rel (root @ ''/'') info \<noteq> []
       \<longrightarrow> (if info_is_dir info
            then is_dir fs' (path_join (resolve env output_dir) (member_rel (root @ ''/'') info))
            else (\<exists>bs. read_bytes fs'
                    (path_join (resolve env output_dir) (member_rel (root @ ''/'') info))
                    = Some bs))"
    using extract_zip_kept [of env zip_bytes _ _ output_dir fs fs'] by blast
next
  show "\<forall>zf out pfx info s s'.
         startswith (filename info) pfx \<and> member_rel pfx info \<noteq> []
         \<and> flatten_member zf out pfx info s = Inr s'
       \<longrightarrow> (if info_is_dir info then is_dir s' (path_join out (member_rel pfx info))
            else (\<exists>bs. zf_read zf (filename info) = Inr bs
                    \<and> read_bytes s' (path_join out (member_rel pfx info)) = Some bs))"
    using flatten_member_written by blast
next
  show "\<forall>zf out pfx info s.
         \<not> startswith (filename info) pfx \<or> member_rel pfx info = []
       \<longrightarrow> flatten_member zf out pfx info s = Inr s"
    using flatten_member_skip by blast
qed

theorem flattened_extraction_strips_root_witness:
  "ZipFile (sample_env 200 sample_page 200 ''PK-sample'') ''PK-sample'' = Some sample_archive
   \<and> canonical (resolve (sample_env 200 sample_page 200 ''PK-sample'') ''/D'')
   \<and> extract_zip (sample_env 200 sample_page 200 ''PK-sample'') ''PK-sample'' ''/D'' True Map.empty
       = Inr [[''D''] \<mapsto> Dir, [''D'', ''main.tex''] \<mapsto> File ''X'', [''D'', ''sub''] \<mapsto> Dir]
   \<and> [[''D''] \<mapsto> Dir, [''D'', ''main.tex''] \<mapsto> File ''X'', [''D'', ''sub''] \<mapsto> Dir]
        [''D'', ''main.tex''] = Some (File ''X'')
   \<and> [[''D''] \<mapsto> Dir, [''D'', ''main.tex''] \<mapsto> File ''X'', [''D'', ''sub''] \<mapsto> Dir]
        [''D'', ''sub''] = Some Dir
   \<and> [[''D''] \<mapsto> Dir, [''D'', ''main.tex''] \<mapsto> File ''X'', [''D'', ''sub''] \<mapsto> Dir]
        [''D'', ''proj''] = None
   \<and> is_dir [[''D''] \<mapsto> Dir] [''D'']
   \<and> (\<exists>fs1. extract_zip (sample_env 200 sample_page 200 ''PK-sample'') ''PK-sample'' ''/D'' True
                [[''D''] \<mapsto> Dir] = Inr fs1)"
proof -
  let ?env = "sample_env 200 sample_page 200 ''PK-sample''"
  let ?F = "[[''D''] \<mapsto> Dir, [''D'', ''main.tex''] \<mapsto> File ''X'', [''D'', ''sub''] \<mapsto> Dir]"
  have z: "ZipFile ?env ''PK-sample'' = Some sample_archive" by (rule sample_ZipFile)
  have c: "canonical (resolve ?env ''/D'')" by (simp add: sample_resolve canonical_def)
  have e: "extract_zip ?env ''PK-sample'' ''/D'' True Map.empty = Inr ?F" by (rule sample_extract)
  from z c e flattened_extraction_strips_root [of ?env "''PK-sample''" "''/D''" Map.empty ?F]
  have "?F (resolve ?env ''/D'' @ [''main.tex'']) = Some (File ''X'')
         \<and> ?F (resolve ?env ''/D'' @ [''sub'']) = Some Dir
         \<and> (\<forall>q. prefix (resolve ?env ''/D'' @ [''proj'']) q \<longrightarrow> ?F q = Map.empty q)"
    by blast
  then have r: "?F [''D'', ''main.tex''] = Some (File ''X'') \<and> ?F [''D'', ''sub''] = Some Dir
      \<and> ?F [''D'', ''proj''] = None"
    by (simp add: sample_resolve)
  have d: "is_dir [[''D''] \<mapsto> Dir] [''D'']" by (simp add: fs_eval)
  have d': "is_dir [[''D''] \<mapsto> Dir] (resolve ?env ''/D'')"
    and f: "[[''D''] \<mapsto> Dir] (resolve ?env ''/D'' @ [''main.tex'']) \<noteq> Some Dir"
    and s: "\<forall>bs. [[''D''] \<mapsto> Dir] (resolve ?env ''/D'' @ [''sub'']) \<noteq> Some (File bs)"
    using d by (simp_all add: sample_resolve)
  from z c d' f s
    flattened_extraction_strips_root [of ?env "''PK-sample''" "''/D''" "[[''D''] \<mapsto> Dir]" ?F]
  have x: "\<exists>fs1. extract_zip ?env ''PK-sample'' ''/D'' True [[''D''] \<mapsto> Dir] = Inr fs1"
    by blast
  from z c e r d x show ?thesis by blast
qed

section \<open>A member named like the root\<close>

lemma flatten_member_bare:
  "filename info = root \<Longrightarrow> flatten_member zf out (root @ ''/'') info fs = Inr fs"
proof -
  assume "filename info = root"
  then have "\<not> startswith (filename info) (root @ ''/'')"
    by (auto simp: startswith_def dest: prefix_length_le)
  then show ?thesis by (simp add: flatten_member_skip)
qed

lemma flatten_members_without_bare:
  "flatten_members zf out (root @ ''/'') infos fs
     = flatten_members zf out (root @ ''/'') (filter (\<lambda>i. filename i \<noteq> root) infos) fs"
  by (induction infos arbitrary: fs) (auto simp: flatten_member_bare split: sum.splits)

lemma zf_read_filter:
  "name \<noteq> root \<Longrightarrow> zf_read (filter (\<lambda>i. filename i \<noteq> root) zf) name = zf_read zf name"
proof -
  assume "name \<noteq> root"
  then have "filter (\<lambda>i. filename i = name) (filter (\<lambda>i. filename i \<noteq> root) zf)
               = filter (\<lambda>i. filename i = name) zf"
    by (induction zf) auto
  then show ?thesis by (simp only: zf_read_def)
qed

lemma flatten_member_other_archive:
  "flatten_member (filter (\<lambda>i. filename i \<noteq> root) zf) out (root @ ''/'') info fs
     = flatten_member zf out (root @ ''/'') info fs"
proof (cases "startswith (filename info) (root @ ''/'')")
  case True
  then have "filename info \<noteq> root" by (auto simp: startswith_def dest: prefix_length_le)
  then show ?thesis by (simp add: flatten_member_def zf_read_filter Let_def split: sum.splits)
next
  case False
  then show ?thesis by (simp add: flatten_member_def)
qed

lemma flatten_members_other_archive:
  "flatten_members (filter (\<lambda>i. filename i \<noteq> root) zf) out (root @ ''/'') infos fs
     = flatten_members zf out (root @ ''/'') infos fs"
  by (induction infos arbitrary: fs)
     (simp_all add: flatten_member_other_archive split: sum.splits)

lemma first_part_of_prefixed:
  assumes "r \<noteq> []" and "CHR ''/'' \<notin> set r" and "prefix (r @ ''/'') n"
  shows "path_parts n \<noteq> [] \<and> hd (path_parts n) = r"
proof -
  from assms(3) obtain rest where "n = r @ CHR ''/'' # rest" by (auto simp: prefix_def)
  then have "split n CHR ''/'' = r # split rest CHR ''/''"
    using assms(2) by (simp add: split_append_sep)
  with assms(1) show ?thesis by (simp add: path_parts_def)
qed

lemma single_root_dir_filter:
  assumes "single_root_dir names = Some r"
  shows "single_root_dir (filter (\<lambda>n. n \<noteq> r) names) = Some r"
proof -
  let ?S = "\<lambda>ns. {hd (path_parts n) | n. n \<in> set ns \<and> path_parts n \<noteq> []}"
  from assms have S: "?S names = {r}" and ex: "\<exists>n \<in> set names. prefix (r @ ''/'') n"
    using single_root_dir_Some_iff [of names r] by auto
  from ex obtain n where n: "n \<in> set names" "prefix (r @ ''/'') n" by blast
  then have nr: "n \<noteq> r" by (auto dest: prefix_length_le)
  from single_root_dir_plain [OF assms] n(2)
  have fp: "path_parts n \<noteq> [] \<and> hd (path_parts n) = r" using first_part_of_prefixed by blast
  have "?S (filter (\<lambda>n. n \<noteq> r) names) \<subseteq> ?S names" by auto
  moreover have "r \<in> ?S (filter (\<lambda>n. n \<noteq> r) names)"
    using n(1) nr fp by force
  ultimately have "?S (filter (\<lambda>n. n \<noteq> r) names) = {r}" using S by blast
  moreover have "\<exists>n \<in> set (filter (\<lambda>n. n \<noteq> r) names). prefix (r @ ''/'') n"
    using n nr by auto
  ultimately show ?thesis
    using single_root_dir_Some_iff [of "filter (\<lambda>n. n \<noteq> r) names" r] by blast
qed

lemma namelist_filter:
  "namelist (filter (\<lambda>i. filename i \<noteq> root) zf) = filter (\<lambda>n. n \<noteq> root) (namelist zf)"
  by (simp add: namelist_def filter_map comp_def)

text \<open>
  Claim C10. When a common root is detected, a member whose name is the root itself,
  with no slash after it, is skipped by the flattening loop: its step leaves the file
  system as it is and raises nothing. So the extraction is the loop over the other
  members, and it gives the same result, file system or error, as the extraction of the
  archive without such members.
\<close>

theorem bare_root_entry_dropped:
  "(ZipFile env zip_bytes = Some zf \<and> single_root_dir (namelist zf) = Some root \<longrightarrow>
      extract_zip env zip_bytes output_dir True fs =
        (case path_mkdir fs (resolve env output_dir) True True of
           Inl e \<Rightarrow> Inl e
         | Inr fs1 \<Rightarrow> flatten_members zf (resolve env output_dir) (root @ ''/'')
                        (filter (\<lambda>i. filename i \<noteq> root) zf) fs1)
      \<and> (\<forall>zip_bytes'. ZipFile env zip_bytes' = Some (filter (\<lambda>i. filename i \<noteq> root) zf)
            \<longrightarrow> extract_zip env zip_bytes' output_dir True fs
                = extract_zip env zip_bytes output_dir True fs))
   \<and> (\<forall>info out s. filename info = root \<longrightarrow> flatten_member zf out (root @ ''/'') info s = Inr s)"
proof (intro conjI impI allI)
  assume h: "ZipFile env zip_bytes = Some zf \<and> single_root_dir (namelist zf) = Some root"
  then have z: "ZipFile env zip_bytes = Some zf" and r: "single_root_dir (namelist zf) = Some root"
    by auto
  show "extract_zip env zip_bytes output_dir True fs =
        (case path_mkdir fs (resolve env output_dir) True True of
           Inl e \<Rightarrow> Inl e
         | Inr fs1 \<Rightarrow> flatten_members zf (resolve env output_dir) (root @ ''/'')
                        (filter (\<lambda>i. filename i \<noteq> root) zf) fs1)"
    unfolding extract_zip_flattened [OF z r]
    using flatten_members_without_bare [of zf "resolve env output_dir" root zf]
    by (simp split: sum.splits)
next
  fix zip_bytes'
  assume h: "ZipFile env zip_bytes = Some zf \<and> single_root_dir (namelist zf) = Some root"
    and z': "ZipFile env zip_bytes' = Some (filter (\<lambda>i. filename i \<noteq> root) zf)"
  from h have z: "ZipFile env zip_bytes = Some zf" and r: "single_root_dir (namelist zf) = Some root"
    by auto
  have r': "single_root_dir (namelist (filter (\<lambda>i. filename i \<noteq> root) zf)) = Some root"
    unfolding namelist_filter using r by (rule single_root_dir_filter)
  show "extract_zip env zip_bytes' output_dir True fs = extract_zip env zip_bytes output_dir True fs"
    unfolding extract_zip_flattened [OF z r] extract_zip_flattened [OF z' r']
      flatten_members_other_archive
    using flatten_members_without_bare [of zf "resolve env output_dir" root zf]
    by (simp split: sum.splits)
next
  fix info :: zipinfo and out s
  assume "filename info = root"
  then show "flatten_member zf out (root @ ''/'') info s = Inr s" by (rule flatten_member_bare)
qed

lemma bare_root: "single_root_dir (namelist bare_archive) = Some ''proj''"
  by (simp add: bare_archive_def namelist_def single_root_dir_def path_parts_def set_add_def
      startswith_def)

lemma plain_extract:
  "extract_zip (sample_env a b c d) ''PK-plain'' ''/D'' True Map.empty
     = Inr [[''D''] \<mapsto> Dir, [''D'', ''a.tex''] \<mapsto> File ''A'']"
proof -
  have z: "ZipFile (sample_env a b c d) ''PK-plain'' = Some plain_archive"
    by (simp add: sample_env_def)
  have r: "single_root_dir (namelist plain_archive) = Some ''proj''"
    by (simp add: plain_archive_def namelist_def single_root_dir_def path_parts_def set_add_def
      startswith_def)
  show ?thesis
    unfolding extract_zip_flattened [OF z r]
    by (simp add: sample_resolve mkdir_D plain_archive_def fs_eval zip_eval)
qed

theorem bare_root_entry_dropped_witness:
  "ZipFile (sample_env 200 sample_page 200 ''PK-bare'') ''PK-bare'' = Some bare_archive
   \<and> single_root_dir (namelist bare_archive) = Some ''proj''
   \<and> extract_zip (sample_env 200 sample_page 200 ''PK-bare'') ''PK-bare'' ''/D'' True Map.empty
       = Inr [[''D''] \<mapsto> Dir, [''D'', ''a.tex''] \<mapsto> File ''A'']"
proof -
  let ?env = "sample_env 200 sample_page 200 ''PK-bare''"
  have z: "ZipFile ?env ''PK-bare'' = Some bare_archive" by (simp add: sample_env_def)
  have z': "ZipFile ?env ''PK-plain'' = Some (filter (\<lambda>i. filename i \<noteq> ''proj'') bare_archive)"
    by (simp add: sample_env_def bare_archive_def plain_archive_def)
  from z bare_root z' bare_root_entry_dropped [of ?env "''PK-bare''" bare_archive "''proj''" "''/D''" Map.empty]
  have "extract_zip ?env ''PK-bare'' ''/D'' True Map.empty
          = extract_zip ?env ''PK-plain'' ''/D'' True Map.empty"
    by metis
  with z bare_root show ?thesis by (simp add: plain_extract)
qed

end
